theory Spec2Isabelle
  imports Complex_Main "HOL-Library.Monad_Syntax" "HOL-Library.Log_Nat"
begin

section \<open>The three programs\<close>

text \<open>
  The repository holds three programs that share the text of the balancing policies and
  differ in the \<open>Server\<close> class, in the \<open>LoadBalancer\<close> constructor and in the body of the
  ant-colony policy:
  \<^item> \<open>Plain\<close>: \<^verbatim>\<open>src/unnamed/part_000\<close>; a server is an id and a \<open>double load\<close>;
  \<^item> \<open>Queued\<close>: the first program of \<^verbatim>\<open>src/performance_comparison.cpp\<close> (lines 1-365);
    a server keeps a vector \<open>loads\<close> of the times handed to it and \<open>getLoad\<close> answers the
    length of that vector;
  \<^item> \<open>Simulated\<close>: the second program of \<^verbatim>\<open>src/performance_comparison.cpp\<close>
    (lines 366-673); a server is an id, a capability and a \<open>double load\<close>.

  The definitions come in two layers. In the first a \<open>double\<close> is a real number and
  additions, products and quotients are exact: it carries the properties that do not
  depend on rounding (which server a task goes to, what is reset, what \<open>run\<close> leaves
  unchanged). The second layer, in the subsection on binary64 arithmetic, repeats with
  rounding to the nearest double the definitions on which the sums of loads and the
  throughput depend. A result \<open>None\<close> stands for a run that has no value in this model:
  undefined behaviour of C++ (an index out of range, a conversion out of range, a
  distribution built on bounds that violate its precondition) or a quotient by zero,
  whose IEEE value is an infinity or a NaN.
\<close>

datatype program = Plain | Queued | Simulated

subsection \<open>Server\<close>

text \<open>
  One record for the three \<open>Server\<close> classes. \<open>Plain\<close> has no \<open>capability\<close> member (the
  field is never read there); only \<open>Queued\<close> has \<open>loads\<close>. The member \<open>total_load\<close> of
  \<open>Queued\<close> is left out: no constructor initialises it and no accessor reads it.
\<close>

record Server =
  id_srv :: int
  capability :: int
  load :: real
  loads :: "int list"

definition Server_plain :: "int \<Rightarrow> Server" where
  "Server_plain i = \<lparr>id_srv = i, capability = 0, load = 0, loads = []\<rparr>"

definition Server_cap :: "int \<Rightarrow> int \<Rightarrow> Server" where
  "Server_cap i c = \<lparr>id_srv = i, capability = c, load = 0, loads = []\<rparr>"

text \<open>
  \<open>Queued\<close> declares \<open>addLoad(int time)\<close> and is called with a \<open>double\<close>: the argument is
  truncated towards zero, and the conversion is undefined when the truncated value is
  not an \<open>int\<close> of 32 bits.
\<close>

definition double_to_int :: "real \<Rightarrow> int option" where
  "double_to_int x =
     (let t = (if 0 \<le> x then \<lfloor>x\<rfloor> else \<lceil>x\<rceil>)
      in if - (2 ^ 31) \<le> t \<and> t < 2 ^ 31 then Some t else None)"

definition addLoad :: "program \<Rightarrow> real \<Rightarrow> Server \<Rightarrow> Server option" where
  "addLoad p taskLoad s =
     (case p of
        Queued \<Rightarrow> map_option (\<lambda>time. s\<lparr>loads := loads s @ [time]\<rparr>) (double_to_int taskLoad)
      | _ \<Rightarrow> Some (s\<lparr>load := load s + taskLoad\<rparr>))"

text \<open>
  \<open>resetLoad\<close> of \<open>Plain\<close> and \<open>Simulated\<close>. The ant-colony policy of \<open>Queued\<close> calls
  \<open>resetLoad\<close> too, where its \<open>Server\<close> declares \<open>reset\<close>; the call is read as \<open>reset\<close>.
\<close>

definition resetLoad :: "program \<Rightarrow> Server \<Rightarrow> Server" where
  "resetLoad p s = (case p of Queued \<Rightarrow> s\<lparr>loads := []\<rparr> | _ \<Rightarrow> s\<lparr>load := 0\<rparr>)"

definition getLoad :: "program \<Rightarrow> Server \<Rightarrow> real" where
  "getLoad p s = (case p of Queued \<Rightarrow> real (length (loads s)) | _ \<Rightarrow> load s)"

definition getId :: "Server \<Rightarrow> int" where
  "getId s = id_srv s"

definition getCapability :: "Server \<Rightarrow> int" where
  "getCapability s = capability s"

subsection \<open>Vectors, loops and quotients\<close>

text \<open>\<open>v[i]\<close> on a \<open>std::vector\<close> with an \<open>int\<close> index: undefined out of range.\<close>

definition at_index :: "'a list \<Rightarrow> int \<Rightarrow> 'a option" where
  "at_index xs i = (if 0 \<le> i \<and> i < int (length xs) then Some (xs ! nat i) else None)"

text \<open>\<open>servers[i].addLoad(taskLoad)\<close>.\<close>

definition addLoad_at :: "program \<Rightarrow> Server list \<Rightarrow> int \<Rightarrow> real \<Rightarrow> Server list option" where
  "addLoad_at p ss i taskLoad =
     do { s \<leftarrow> at_index ss i;
          s' \<leftarrow> addLoad p taskLoad s;
          Some (ss[nat i := s']) }"

text \<open>A \<open>for\<close> loop over a range whose body may have no value.\<close>

fun foldM :: "('a \<Rightarrow> 's \<Rightarrow> 's option) \<Rightarrow> 'a list \<Rightarrow> 's \<Rightarrow> 's option" where
  "foldM f [] s = Some s"
| "foldM f (x # xs) s = (case f x s of None \<Rightarrow> None | Some s' \<Rightarrow> foldM f xs s')"

definition double_div :: "real \<Rightarrow> real \<Rightarrow> real option" where
  "double_div x y = (if y = 0 then None else Some (x / y))"

subsection \<open>The random sources\<close>

text \<open>
  Every policy seeds its own \<open>std::mt19937\<close> from \<open>std::random_device\<close>; the draws are
  inputs of the model. \<open>ints k\<close> is the value of the \<open>k\<close>-th call of a
  \<open>std::uniform_int_distribution\<close>, \<open>units k\<close> the canonical variate in \<open>[0, 1)\<close> behind
  the \<open>k\<close>-th call of a \<open>std::uniform_real_distribution\<close>, which answers
  \<open>a + (b - a) * units k\<close>.
\<close>

record random_source =
  ints :: "nat \<Rightarrow> int"
  units :: "nat \<Rightarrow> real"

subsection \<open>Random and Round-Robin\<close>

text \<open>
  \<open>std::uniform_int_distribution<> dis(0, servers.size() - 1)\<close> requires \<open>0 \<le> size - 1\<close>:
  on an empty pool the policy has no value.
\<close>

definition Random_balanceLoad ::
  "program \<Rightarrow> random_source \<Rightarrow> Server list \<Rightarrow> real list \<Rightarrow> Server list option" where
  "Random_balanceLoad p rs servers taskLoads =
     (if servers = [] then None
      else map_option fst
        (foldM (\<lambda>taskLoad (ss, k). do {
                  let randomServer = ints rs k;
                  ss' \<leftarrow> addLoad_at p ss randomServer taskLoad;
                  Some (ss', Suc k) })
           taskLoads (servers, 0)))"

text \<open>
  The state of the policy object is the pair of \<open>servers\<close> and \<open>currentServer\<close>. The remainder
  \<open>(currentServer + 1) % servers.size()\<close> is taken after \<open>servers[currentServer]\<close> has been
  reached: the cursor is in range then, and the pool is not empty.
\<close>

definition RoundRobin_step :: "program \<Rightarrow> real \<Rightarrow> Server list \<times> int \<Rightarrow> (Server list \<times> int) option" where
  "RoundRobin_step p taskLoad st =
     (case st of (ss, currentServer) \<Rightarrow> do {
        ss' \<leftarrow> addLoad_at p ss currentServer taskLoad;
        Some (ss', (currentServer + 1) mod int (length ss')) })"

definition RoundRobin_balanceLoad ::
  "program \<Rightarrow> Server list \<times> int \<Rightarrow> real list \<Rightarrow> (Server list \<times> int) option" where
  "RoundRobin_balanceLoad p st taskLoads = foldM (RoundRobin_step p) taskLoads st"

subsection \<open>Weighted Round-Robin and Active Clustering\<close>

text \<open>The scan of \<open>updateCurrentServer\<close>: it starts from server 0 and visits every server.\<close>

definition updateCurrentServer :: "program \<Rightarrow> Server list \<Rightarrow> int option" where
  "updateCurrentServer p ss =
     (case ss of
        [] \<Rightarrow> None
      | s0 # _ \<Rightarrow>
          Some (snd (foldl (\<lambda>(minLoad, minLoadServer) server.
                              if getLoad p server < minLoad then (getLoad p server, getId server)
                              else (minLoad, minLoadServer))
                      (getLoad p s0, getId s0) ss)))"

definition WeightedRoundRobin_step ::
  "program \<Rightarrow> real \<Rightarrow> Server list \<times> int \<Rightarrow> (Server list \<times> int) option" where
  "WeightedRoundRobin_step p taskLoad st =
     (case st of (ss, currentServer) \<Rightarrow> do {
        ss' \<leftarrow> addLoad_at p ss currentServer taskLoad;
        currentServer' \<leftarrow> updateCurrentServer p ss';
        Some (ss', currentServer') })"

definition WeightedRoundRobin_balanceLoad ::
  "program \<Rightarrow> Server list \<times> int \<Rightarrow> real list \<Rightarrow> (Server list \<times> int) option" where
  "WeightedRoundRobin_balanceLoad p st taskLoads = foldM (WeightedRoundRobin_step p) taskLoads st"

text \<open>The scan written inside the loop of the Active-Clustering policy.\<close>

definition minLoadServer :: "program \<Rightarrow> Server list \<Rightarrow> int option" where
  "minLoadServer p ss =
     (case ss of
        [] \<Rightarrow> None
      | s0 # _ \<Rightarrow>
          Some (snd (foldl (\<lambda>(minLoad, minLoadServer) server.
                              if getLoad p server < minLoad then (getLoad p server, getId server)
                              else (minLoad, minLoadServer))
                      (getLoad p s0, getId s0) ss)))"

definition ActiveClustering_step :: "program \<Rightarrow> real \<Rightarrow> Server list \<Rightarrow> Server list option" where
  "ActiveClustering_step p taskLoad ss =
     do { m \<leftarrow> minLoadServer p ss;
          addLoad_at p ss m taskLoad }"

definition ActiveClustering_balanceLoad ::
  "program \<Rightarrow> Server list \<Rightarrow> real list \<Rightarrow> Server list option" where
  "ActiveClustering_balanceLoad p servers taskLoads = foldM (ActiveClustering_step p) taskLoads servers"

subsection \<open>Ant-Colony Optimization\<close>

text \<open>
  \<open>Queued\<close> (lines 185-270) and \<open>Plain\<close> (lines 160-245 of part_000) share
  \<open>selectNextServer\<close> and \<open>updatePheromones\<close>. \<open>std::pow\<close> is only called with the
  constants \<open>alpha = 1.0\<close> and \<open>beta = 2.0\<close>: the exponents are natural numbers here.
\<close>

fun mapM :: "('a \<Rightarrow> 'b option) \<Rightarrow> 'a list \<Rightarrow> 'b list option" where
  "mapM f [] = Some []"
| "mapM f (x # xs) =
     (case f x of None \<Rightarrow> None
      | Some y \<Rightarrow> (case mapM f xs of None \<Rightarrow> None | Some ys \<Rightarrow> Some (y # ys)))"

definition initial_pheromones :: "nat \<Rightarrow> nat \<Rightarrow> real list list" where
  "initial_pheromones numTasks numServers = replicate numTasks (replicate numServers 1)"

text \<open>\<open>m[taskId][serverId] = f(m[taskId][serverId])\<close>.\<close>

definition update_entry :: "real list list \<Rightarrow> nat \<Rightarrow> nat \<Rightarrow> (real \<Rightarrow> real) \<Rightarrow> real list list option" where
  "update_entry m taskId serverId f =
     (if taskId < length m \<and> serverId < length (m ! taskId)
      then Some (m[taskId := (m ! taskId)[serverId := f (m ! taskId ! serverId)]])
      else None)"

text \<open>The body of the first loop of \<open>selectNextServer\<close>: the entry \<open>probabilities[serverId]\<close>.\<close>

definition probability_of ::
  "program \<Rightarrow> Server list \<Rightarrow> real list list \<Rightarrow> real list \<Rightarrow> nat \<Rightarrow> nat \<Rightarrow> nat \<Rightarrow> nat \<Rightarrow> real option" where
  "probability_of p ss pheromones taskLoads alpha beta taskId serverId =
     do { row \<leftarrow> at_index pheromones (int taskId);
          pheromone \<leftarrow> at_index row (int serverId);
          server \<leftarrow> at_index ss (int serverId);
          taskLoad \<leftarrow> at_index taskLoads (int taskId);
          heuristic \<leftarrow> double_div 1 ((getLoad p server + taskLoad) ^ beta);
          Some (pheromone ^ alpha * heuristic) }"

text \<open>
  \<open>std::uniform_real_distribution<> dis(a, b)\<close> requires \<open>a \<le> b\<close>; \<open>dis(gen)\<close> is
  \<open>a + (b - a) * u\<close> for the canonical variate \<open>u\<close>.
\<close>

definition uniform_real :: "real \<Rightarrow> real \<Rightarrow> real \<Rightarrow> real option" where
  "uniform_real a b u = (if a \<le> b then Some (a + (b - a) * u) else None)"

text \<open>
  The roulette loop: \<open>Some serverId\<close> when the loop returns at \<open>serverId\<close>, \<open>None\<close> when it
  runs to its end.
\<close>

fun roulette :: "real list \<Rightarrow> real \<Rightarrow> real \<Rightarrow> nat \<Rightarrow> nat option" where
  "roulette [] selection cumulativeProbability serverId = None"
| "roulette (q # qs) selection cumulativeProbability serverId =
     (let cumulativeProbability' = cumulativeProbability + q
      in if cumulativeProbability' \<ge> selection then Some serverId
         else roulette qs selection cumulativeProbability' (Suc serverId))"

definition selectNextServer ::
  "program \<Rightarrow> Server list \<Rightarrow> nat \<Rightarrow> real list list \<Rightarrow> real list \<Rightarrow> nat \<Rightarrow> nat \<Rightarrow> real \<Rightarrow> int option" where
  "selectNextServer p ss taskId pheromones taskLoads alpha beta u =
     do { probabilities \<leftarrow> mapM (probability_of p ss pheromones taskLoads alpha beta taskId) [0..<length ss];
          let totalProbability = sum_list probabilities;
          selection \<leftarrow> uniform_real 0 totalProbability u;
          Some (case roulette probabilities selection 0 0 of
                  Some serverId \<Rightarrow> int serverId
                | None \<Rightarrow> int (length ss) - 1) }"

definition evaporate_entry :: "real \<Rightarrow> nat \<Rightarrow> nat \<Rightarrow> real list list \<Rightarrow> real list list option" where
  "evaporate_entry rho taskId serverId m = update_entry m taskId serverId (\<lambda>x. x * (1 - rho))"

definition deposit_entry ::
  "program \<Rightarrow> Server list \<Rightarrow> real list \<Rightarrow> real \<Rightarrow> nat \<Rightarrow> nat \<Rightarrow> real list list \<Rightarrow> real list list option" where
  "deposit_entry p ss taskLoads Q taskId serverId m =
     do { server \<leftarrow> at_index ss (int serverId);
          taskLoad \<leftarrow> at_index taskLoads (int taskId);
          deltaPheromone \<leftarrow> double_div Q (getLoad p server + taskLoad);
          update_entry m taskId serverId (\<lambda>x. x + deltaPheromone) }"

definition updatePheromones ::
  "program \<Rightarrow> Server list \<Rightarrow> real list list \<Rightarrow> real list \<Rightarrow> real \<Rightarrow> real \<Rightarrow> real list list option" where
  "updatePheromones p ss pheromones taskLoads rho Q =
     (let numTasks = length taskLoads; numServers = length ss
      in do { evaporated \<leftarrow>
                foldM (\<lambda>taskId. foldM (evaporate_entry rho taskId) [0..<numServers])
                  [0..<numTasks] pheromones;
              foldM (\<lambda>taskId. foldM (deposit_entry p ss taskLoads Q taskId) [0..<numServers])
                [0..<numTasks] evaporated })"

text \<open>One ant: the body of the loop over \<open>taskId\<close>; \<open>k\<close> counts the draws made so far.\<close>

definition ant_step ::
  "program \<Rightarrow> random_source \<Rightarrow> real list \<Rightarrow> real list list \<Rightarrow> nat \<Rightarrow> Server list \<times> nat
     \<Rightarrow> (Server list \<times> nat) option" where
  "ant_step p rs taskLoads pheromones taskId st =
     (case st of (ss, k) \<Rightarrow> do {
        currentServer \<leftarrow> selectNextServer p ss taskId pheromones taskLoads 1 2 (units rs k);
        taskLoad \<leftarrow> at_index taskLoads (int taskId);
        ss' \<leftarrow> addLoad_at p ss currentServer taskLoad;
        Some (ss', Suc k) })"

text \<open>
  The ants move in \<open>Queued\<close> only: \<open>Plain\<close> has that loop commented out.
\<close>

definition move_ants ::
  "program \<Rightarrow> random_source \<Rightarrow> real list \<Rightarrow> real list list \<Rightarrow> Server list \<times> nat
     \<Rightarrow> (Server list \<times> nat) option" where
  "move_ants p rs taskLoads pheromones st =
     (case p of
        Queued \<Rightarrow> foldM (ant_step p rs taskLoads pheromones) [0..<length taskLoads] st
      | _ \<Rightarrow> Some st)"

text \<open>One iteration: move the ants, update the pheromones, reset every server.\<close>

definition ACO_iteration ::
  "program \<Rightarrow> random_source \<Rightarrow> real list \<Rightarrow> Server list \<times> real list list \<times> nat
     \<Rightarrow> (Server list \<times> real list list \<times> nat) option" where
  "ACO_iteration p rs taskLoads st =
     (case st of (ss, pheromones, k) \<Rightarrow> do {
        (ss', k') \<leftarrow> move_ants p rs taskLoads pheromones (ss, k);
        pheromones' \<leftarrow> updatePheromones p ss' pheromones taskLoads (1/2) 1;
        Some (map (resetLoad p) ss', pheromones', k') })"

text \<open>
  The loop over \<open>iteration\<close>, for any bound \<open>n\<close> in the place of \<open>numIterations\<close>, which is 100
  in \<open>Queued\<close> and 1 in \<open>Plain\<close> (\<open>Simulated\<close> has no such loop).
\<close>

definition ACO_iterations ::
  "program \<Rightarrow> nat \<Rightarrow> random_source \<Rightarrow> Server list \<Rightarrow> real list
     \<Rightarrow> (Server list \<times> real list list \<times> nat) option" where
  "ACO_iterations p n rs servers taskLoads =
     foldM (\<lambda>iteration. ACO_iteration p rs taskLoads) [0..<n]
       (servers, initial_pheromones (length taskLoads) (length servers), 0)"

definition numIterations :: "program \<Rightarrow> nat" where
  "numIterations p = (case p of Queued \<Rightarrow> 100 | _ \<Rightarrow> 1)"

text \<open>
  \<open>Simulated\<close> (lines 539-556) has a placeholder: one random server for each task.
  \<open>getRandomServer\<close> builds \<open>dis(0, servers.size() - 1)\<close> at every call.
\<close>

definition getRandomServer :: "random_source \<Rightarrow> nat \<Rightarrow> Server list \<Rightarrow> int option" where
  "getRandomServer rs k ss = (if ss = [] then None else Some (ints rs k))"

definition ACO_placeholder ::
  "program \<Rightarrow> random_source \<Rightarrow> Server list \<Rightarrow> real list \<Rightarrow> Server list option" where
  "ACO_placeholder p rs servers taskLoads =
     map_option fst
       (foldM (\<lambda>taskLoad (ss, k). do {
                 randomServer \<leftarrow> getRandomServer rs k ss;
                 ss' \<leftarrow> addLoad_at p ss randomServer taskLoad;
                 Some (ss', Suc k) })
          taskLoads (servers, 0))"

definition AntColonyOptimization_balanceLoad ::
  "program \<Rightarrow> random_source \<Rightarrow> Server list \<Rightarrow> real list \<Rightarrow> Server list option" where
  "AntColonyOptimization_balanceLoad p rs servers taskLoads =
     (case p of
        Simulated \<Rightarrow> ACO_placeholder p rs servers taskLoads
      | _ \<Rightarrow> map_option fst (ACO_iterations p (numIterations p) rs servers taskLoads))"

subsection \<open>LoadBalancer\<close>

datatype policy = Random | RoundRobin | WeightedRoundRobin | ActiveClustering | AntColonyOptimization

text \<open>
  \<open>LoadBalancingAlgorithm algorithm(servers); algorithm.balanceLoad(taskLoads)\<close>: the
  constructor copies the vector into the policy object (and sets \<open>currentServer\<close> to 0
  where there is one); the result is the vector of the policy object after the call.
\<close>

definition balanceLoad ::
  "program \<Rightarrow> policy \<Rightarrow> random_source \<Rightarrow> Server list \<Rightarrow> real list \<Rightarrow> Server list option" where
  "balanceLoad p pol rs servers taskLoads =
     (case pol of
        Random \<Rightarrow> Random_balanceLoad p rs servers taskLoads
      | RoundRobin \<Rightarrow> map_option fst (RoundRobin_balanceLoad p (servers, 0) taskLoads)
      | WeightedRoundRobin \<Rightarrow> map_option fst (WeightedRoundRobin_balanceLoad p (servers, 0) taskLoads)
      | ActiveClustering \<Rightarrow> ActiveClustering_balanceLoad p servers taskLoads
      | AntColonyOptimization \<Rightarrow> AntColonyOptimization_balanceLoad p rs servers taskLoads)"

record LoadBalancer =
  servers :: "Server list"

text \<open>\<open>LoadBalancer(int numServers)\<close> of \<open>Plain\<close>.\<close>

definition LoadBalancer_plain :: "int \<Rightarrow> LoadBalancer" where
  "LoadBalancer_plain numServers = \<lparr>servers = map (\<lambda>i. Server_plain (int i)) [0..<nat numServers]\<rparr>"

text \<open>\<open>LoadBalancer(const std::vector<int>& capabilities)\<close> of \<open>Queued\<close> and \<open>Simulated\<close>.\<close>

definition LoadBalancer_cap :: "int list \<Rightarrow> LoadBalancer" where
  "LoadBalancer_cap capabilities =
     \<lparr>servers = map (\<lambda>i. Server_cap (int i) (capabilities ! i)) [0..<length capabilities]\<rparr>"

text \<open>
  \<open>run\<close>: the pair of the \<open>LoadBalancer\<close> after the call and of the vector that the policy
  object holds when it goes out of scope.
\<close>

definition run ::
  "program \<Rightarrow> policy \<Rightarrow> random_source \<Rightarrow> LoadBalancer \<Rightarrow> real list \<Rightarrow> (LoadBalancer \<times> Server list) option" where
  "run p pol rs lb taskLoads =
     (let algorithm = servers lb
      in case balanceLoad p pol rs algorithm taskLoads of
           None \<Rightarrow> None
         | Some algorithm' \<Rightarrow> Some (lb, algorithm'))"

text \<open>Several calls of \<open>run\<close> on one \<open>LoadBalancer\<close>, each with its own draws.\<close>

definition runs ::
  "program \<Rightarrow> policy \<Rightarrow> LoadBalancer \<Rightarrow> (random_source \<times> real list) list \<Rightarrow> LoadBalancer option" where
  "runs p pol lb calls =
     foldM (\<lambda>(rs, taskLoads) lb'. map_option fst (run p pol rs lb' taskLoads)) calls lb"

definition getTotalLoad :: "program \<Rightarrow> LoadBalancer \<Rightarrow> real" where
  "getTotalLoad p lb = foldl (\<lambda>totalLoad server. totalLoad + getLoad p server) 0 (servers lb)"

definition getThroughput :: "program \<Rightarrow> LoadBalancer \<Rightarrow> real \<Rightarrow> real option" where
  "getThroughput p lb simulatedTime =
     (let totalCapability = foldl (\<lambda>total server. total + real_of_int (getCapability server)) 0 (servers lb);
          totalLoad = getTotalLoad p lb
      in do { q \<leftarrow> double_div totalLoad simulatedTime;
              double_div q totalCapability })"

subsection \<open>Binary64 arithmetic\<close>

text \<open>
  The \<open>double\<close> of the three programs is the IEEE binary64 format, and every operation
  rounds its exact result to the nearest double, ties to the even significand.
  \<open>double_round x\<close> is the double nearest to the real \<open>x\<close>: the multiple of the unit in the last
  place \<open>2 ^ (max e (-1022) - 52)\<close> nearest to \<open>x\<close>, where \<open>2 ^ e \<le> |x| < 2 ^ (e + 1)\<close>, so that
  the subnormal numbers share the unit \<open>2 ^ -1074\<close>. It is \<open>None\<close> when the rounded magnitude
  reaches \<open>2 ^ 1024\<close>, where the operation yields an infinity. The definitions below whose
  names end in \<open>_double\<close> repeat the definitions above with every \<open>+\<close> and \<open>/\<close> on doubles
  rounded; \<open>None\<close> then also stands for a run in which an operation yields an infinity or
  a NaN.
\<close>

definition pow2 :: "int \<Rightarrow> real" where
  "pow2 k = (if 0 \<le> k then 2 ^ nat k else 1 / 2 ^ nat (- k))"

definition exponent_of :: "real \<Rightarrow> int" where
  "exponent_of x = (if 1 \<le> \<bar>x\<bar> then bitlen \<lfloor>\<bar>x\<bar>\<rfloor> - 1 else - bitlen (\<lceil>1 / \<bar>x\<bar>\<rceil> - 1))"

definition round_even :: "real \<Rightarrow> int" where
  "round_even q =
     (let f = \<lfloor>q\<rfloor>; d = q - of_int f
      in if d < 1/2 then f else if 1/2 < d then f + 1 else if even f then f else f + 1)"

definition double_round :: "real \<Rightarrow> real option" where
  "double_round x =
     (if x = 0 then Some 0
      else let ulp = pow2 (max (exponent_of x) (- 1022) - 52);
               y = of_int (round_even (x / ulp)) * ulp
           in if 2 ^ 1024 \<le> \<bar>y\<bar> then None else Some y)"

definition double_add :: "real \<Rightarrow> real \<Rightarrow> real option" where
  "double_add x y = double_round (x + y)"



text \<open>
  \<open>load += taskLoad\<close> of \<open>Plain\<close> and \<open>Simulated\<close> in binary64. \<open>addLoad\<close> of \<open>Queued\<close> adds no
  doubles: it appends the truncated time.
\<close>

definition addLoad_double :: "program \<Rightarrow> real \<Rightarrow> Server \<Rightarrow> Server option" where
  "addLoad_double p taskLoad s =
     (case p of
        Queued \<Rightarrow> map_option (\<lambda>time. s\<lparr>loads := loads s @ [time]\<rparr>) (double_to_int taskLoad)
      | _ \<Rightarrow> map_option (\<lambda>l. s\<lparr>load := l\<rparr>) (double_add (load s) taskLoad))"

definition addLoad_at_double :: "program \<Rightarrow> Server list \<Rightarrow> int \<Rightarrow> real \<Rightarrow> Server list option" where
  "addLoad_at_double p ss i taskLoad =
     do { s \<leftarrow> at_index ss i;
          s' \<leftarrow> addLoad_double p taskLoad s;
          Some (ss[nat i := s']) }"




text \<open>The scans compare doubles and add none: they are the scans above.\<close>

definition WeightedRoundRobin_step_double ::
  "program \<Rightarrow> real \<Rightarrow> Server list \<times> int \<Rightarrow> (Server list \<times> int) option" where
  "WeightedRoundRobin_step_double p taskLoad st =
     (case st of (ss, currentServer) \<Rightarrow> do {
        ss' \<leftarrow> addLoad_at_double p ss currentServer taskLoad;
        currentServer' \<leftarrow> updateCurrentServer p ss';
        Some (ss', currentServer') })"






subsection \<open>Vocabulary of the properties\<close>

text \<open>
  What \<open>getLoad\<close> gains when \<open>addLoad\<close> is called with \<open>taskLoad\<close>: the weight of the task, and
  in \<open>Queued\<close> one more entry in the queue.
\<close>

definition load_gain :: "program \<Rightarrow> real \<Rightarrow> real" where
  "load_gain p taskLoad = (case p of Queued \<Rightarrow> 1 | _ \<Rightarrow> taskLoad)"

text \<open>The task weights on which \<open>addLoad\<close> is defined.\<close>

definition accepts :: "program \<Rightarrow> real \<Rightarrow> bool" where
  "accepts p taskLoad = (case p of Queued \<Rightarrow> double_to_int taskLoad \<noteq> None | _ \<Rightarrow> True)"

text \<open>
  The tasks dealt to server \<open>i\<close> of \<open>S\<close> by a cursor that stands at \<open>c\<close>, and the tasks at the
  positions \<open>i\<close>, \<open>i + S\<close>, \<open>i + 2 S\<close>, ... of the sequence.
\<close>

fun dealt :: "nat \<Rightarrow> nat \<Rightarrow> nat \<Rightarrow> 'a list \<Rightarrow> 'a list" where
  "dealt S c i [] = []"
| "dealt S c i (t # ts) = (if c = i then t # dealt S (Suc c mod S) i ts else dealt S (Suc c mod S) i ts)"

definition tasks_in_turn :: "real list \<Rightarrow> nat \<Rightarrow> nat \<Rightarrow> real list" where
  "tasks_in_turn taskLoads S i = map ((!) taskLoads) (filter (\<lambda>j. j mod S = i) [0..<length taskLoads])"

text \<open>
  The pools that the \<open>LoadBalancer\<close> constructors build: the server at position \<open>i\<close> has
  the id \<open>i\<close>. The policies index the vector by an id.
\<close>

definition ids_are_positions :: "Server list \<Rightarrow> bool" where
  "ids_are_positions ss = (map getId ss = map int [0..<length ss])"

text \<open>The body of the scan for the least load, and the body of the loop of the Random policy.\<close>

definition scan_step :: "program \<Rightarrow> real \<times> int \<Rightarrow> Server \<Rightarrow> real \<times> int" where
  "scan_step p = (\<lambda>(minLoad, minLoadServer) server.
                              if getLoad p server < minLoad then (getLoad p server, getId server)
                              else (minLoad, minLoadServer))"

definition draw_step :: "program \<Rightarrow> random_source \<Rightarrow> real \<Rightarrow> Server list \<times> nat \<Rightarrow> (Server list \<times> nat) option" where
  "draw_step p rs = (\<lambda>taskLoad (ss, k). do {
                  let randomServer = ints rs k;
                  ss' \<leftarrow> addLoad_at p ss randomServer taskLoad;
                  Some (ss', Suc k) })"

text \<open>
  The invariants of the ant-colony policy: every pheromone is strictly positive, the matrix
  has one row for each task and one column for each server, no load is negative.
\<close>

definition positive_entries :: "real list list \<Rightarrow> bool" where
  "positive_entries m = list_all (list_all (\<lambda>x. 0 < x)) m"

definition matrix_ok :: "nat \<Rightarrow> nat \<Rightarrow> real list list \<Rightarrow> bool" where
  "matrix_ok numTasks numServers m =
     (length m = numTasks \<and> list_all (\<lambda>row. length row = numServers) m \<and> positive_entries m)"

definition loads_nonnegative :: "program \<Rightarrow> Server list \<Rightarrow> bool" where
  "loads_nonnegative p ss = list_all (\<lambda>s. 0 \<le> getLoad p s) ss"

definition ACO_state_ok :: "program \<Rightarrow> nat \<Rightarrow> nat \<Rightarrow> Server list \<times> real list list \<times> nat \<Rightarrow> bool" where
  "ACO_state_ok p numTasks numServers st =
     (length (fst st) = numServers \<and> loads_nonnegative p (fst st)
      \<and> matrix_ok numTasks numServers (fst (snd st)))"

text \<open>
  The calls of \<open>run\<close> on which the policy is defined: weights that \<open>addLoad\<close> accepts, draws
  of the integer distribution in \<open>[0, size)\<close>, and strictly positive weights for the
  iterations of the ant-colony policy.
\<close>

definition run_defined :: "program \<Rightarrow> policy \<Rightarrow> LoadBalancer \<Rightarrow> random_source \<times> real list \<Rightarrow> bool" where
  "run_defined p pol lb call =
     (case call of (rs, taskLoads) \<Rightarrow>
        list_all (accepts p) taskLoads
        \<and> (\<forall>k. 0 \<le> ints rs k \<and> ints rs k < int (length (servers lb)))
        \<and> (pol = AntColonyOptimization \<and> p \<noteq> Simulated \<longrightarrow> list_all (\<lambda>w. 0 < w) taskLoads))"







section \<open>Properties\<close>

subsection \<open>Loops, vectors and servers\<close>

lemma foldM_append:
  "foldM f (xs @ ys) s = (case foldM f xs s of None \<Rightarrow> None | Some s' \<Rightarrow> foldM f ys s')"
  by (induction xs arbitrary: s) (auto split: option.splits)

lemma foldM_invariant:
  assumes "foldM f xs s = Some s'" and "I s"
    and "\<And>x t t'. x \<in> set xs \<Longrightarrow> I t \<Longrightarrow> f x t = Some t' \<Longrightarrow> I t'"
  shows "I s'"
  using assms
proof (induction xs arbitrary: s)
  case Nil
  then show ?case by simp
next
  case (Cons x xs)
  from Cons.prems(1) obtain t where t: "f x s = Some t" and r: "foldM f xs t = Some s'"
    by (auto split: option.splits)
  have "I t" using Cons.prems(3) [of x s t] Cons.prems(2) t by simp
  show ?case
  proof (rule Cons.IH [OF r \<open>I t\<close>])
    fix y u u' assume "y \<in> set xs" "I u" "f y u = Some u'"
    then show "I u'" using Cons.prems(3) [of y u u'] by simp
  qed
qed

lemma foldM_total:
  assumes "I s"
    and "\<And>x t. x \<in> set xs \<Longrightarrow> I t \<Longrightarrow> \<exists>t'. f x t = Some t' \<and> I t'"
  shows "\<exists>s'. foldM f xs s = Some s' \<and> I s'"
  using assms
proof (induction xs arbitrary: s)
  case Nil
  then show ?case by simp
next
  case (Cons x xs)
  from Cons.prems(2) [of x s] Cons.prems(1) obtain t where t: "f x s = Some t" "I t"
    by auto
  have "\<exists>s'. foldM f xs t = Some s' \<and> I s'"
    using Cons.IH [OF t(2)] Cons.prems(2) by simp
  then show ?case using t by simp
qed

lemma foldM_preserves:
  assumes "\<And>x t t'. I t \<Longrightarrow> f x t = Some t' \<Longrightarrow> I t'"
  shows "I s \<Longrightarrow> foldM f xs s = Some s' \<Longrightarrow> I s'"
  using foldM_invariant [of f xs s s' I] assms by blast


lemma at_index_nat: "at_index xs (int n) = (if n < length xs then Some (xs ! n) else None)"
  by (simp add: at_index_def)

lemma getLoad_addLoad: "addLoad p t s = Some s' \<Longrightarrow> getLoad p s' = getLoad p s + load_gain p t"
  by (cases p) (auto simp: addLoad_def getLoad_def load_gain_def)

lemma getId_addLoad: "addLoad p t s = Some s' \<Longrightarrow> getId s' = getId s"
  by (cases p) (auto simp: addLoad_def getId_def)

lemma getCapability_addLoad: "addLoad p t s = Some s' \<Longrightarrow> getCapability s' = getCapability s"
  by (cases p) (auto simp: addLoad_def getCapability_def)

lemma addLoad_total: "accepts p t \<Longrightarrow> \<exists>s'. addLoad p t s = Some s'"
  by (cases p) (auto simp: addLoad_def accepts_def)

lemma addLoad_accepts: "addLoad p t s = Some s' \<Longrightarrow> accepts p t"
  by (cases p) (auto simp: addLoad_def accepts_def)

lemma addLoad_at_Some:
  "addLoad_at p ss i t = Some ss' \<longleftrightarrow>
     (0 \<le> i \<and> i < int (length ss) \<and> (\<exists>s'. addLoad p t (ss ! nat i) = Some s' \<and> ss' = ss[nat i := s']))"
  by (auto simp: addLoad_at_def at_index_def bind_eq_Some_conv)

lemma addLoad_at_total:
  "0 \<le> i \<Longrightarrow> i < int (length ss) \<Longrightarrow> accepts p t \<Longrightarrow> \<exists>ss'. addLoad_at p ss i t = Some ss'"
  using addLoad_total [of p t "ss ! nat i"] by (auto simp: addLoad_at_Some)

lemma length_addLoad_at: "addLoad_at p ss i t = Some ss' \<Longrightarrow> length ss' = length ss"
  by (auto simp: addLoad_at_Some)

lemma sum_list_update_real:
  fixes xs :: "real list"
  shows "k < length xs \<Longrightarrow> sum_list (xs[k := v]) = sum_list xs - xs ! k + v"
  by (induction xs arbitrary: k) (auto split: nat.splits)

lemma total_addLoad_at:
  assumes "addLoad_at p ss i t = Some ss'"
  shows "sum_list (map (getLoad p) ss') = sum_list (map (getLoad p) ss) + load_gain p t"
proof -
  from assms obtain s' where i: "0 \<le> i" "nat i < length ss"
    and s': "addLoad p t (ss ! nat i) = Some s'" and ss': "ss' = ss[nat i := s']"
    by (auto simp: addLoad_at_Some)
  have "map (getLoad p) ss' = (map (getLoad p) ss)[nat i := getLoad p s']"
    by (simp add: ss' map_update)
  then show ?thesis
    using i getLoad_addLoad [OF s'] by (simp add: sum_list_update_real)
qed

lemma ids_addLoad_at: "addLoad_at p ss i t = Some ss' \<Longrightarrow> map getId ss' = map getId ss"
  by (auto simp: addLoad_at_Some map_update getId_addLoad list_update_same_conv)

lemma getTotalLoad_sum: "getTotalLoad p lb = sum_list (map (getLoad p) (servers lb))"
proof -
  have "foldl (\<lambda>totalLoad server. totalLoad + getLoad p server) a ss = a + sum_list (map (getLoad p) ss)" for a ss
    by (induction ss arbitrary: a) auto
  then show ?thesis by (simp add: getTotalLoad_def)
qed


subsection \<open>Round-Robin\<close>

lemma dealt_positions:
  "c < S \<Longrightarrow> dealt S c i ts = map ((!) ts) (filter (\<lambda>j. (c + j) mod S = i) [0..<length ts])"
proof (induction ts arbitrary: c)
  case Nil
  then show ?case by simp
next
  case (Cons t ts)
  have S: "0 < S" using Cons.prems by simp
  have up: "[0..<length (t # ts)] = 0 # map Suc [0..<length ts]"
    by (simp add: upt_conv_Cons map_Suc_upt del: upt_Suc)
  have shift: "(Suc d mod S + j) mod S = Suc (d + j) mod S" for j d
    by (metis add_Suc mod_add_left_eq)
  have ih: "dealt S (Suc c mod S) i ts
      = map ((!) ts) (filter (\<lambda>j. (Suc c mod S + j) mod S = i) [0..<length ts])"
    using Cons.IH [of "Suc c mod S"] S by simp
  show ?case
    using Cons.prems
    by (simp only: up dealt.simps ih) (simp add: filter_map o_def shift)
qed

lemma RoundRobin_from:
  assumes "RoundRobin_balanceLoad p (ss, int c) ts = Some (ss', c')" and "c < length ss"
  shows "length ss' = length ss \<and>
         (\<forall>i<length ss. foldM (addLoad p) (dealt (length ss) c i ts) (ss ! i) = Some (ss' ! i))"
  using assms
proof (induction ts arbitrary: ss c)
  case Nil
  then show ?case by (simp add: RoundRobin_balanceLoad_def)
next
  case (Cons t ts)
  from Cons.prems(1) obtain ss1 where
    a: "addLoad_at p ss (int c) t = Some ss1" and
    r: "RoundRobin_balanceLoad p (ss1, (int c + 1) mod int (length ss1)) ts = Some (ss', c')"
    by (auto simp: RoundRobin_balanceLoad_def RoundRobin_step_def bind_eq_Some_conv split: option.splits)
  from a obtain s' where s': "addLoad p t (ss ! c) = Some s'" and ss1: "ss1 = ss[c := s']"
    by (auto simp: addLoad_at_Some)
  have len: "length ss1 = length ss" by (simp add: ss1)
  have cur: "(int c + 1) mod int (length ss1) = int (Suc c mod length ss)"
    by (simp add: len of_nat_mod add.commute)
  have c1: "Suc c mod length ss < length ss1"
    using Cons.prems(2) len by (cases "length ss") simp_all
  from Cons.IH [OF r [unfolded cur] c1]
  have ih: "length ss' = length ss1"
    "\<And>i. i < length ss1 \<Longrightarrow> foldM (addLoad p) (dealt (length ss1) (Suc c mod length ss) i ts) (ss1 ! i) = Some (ss' ! i)"
    by auto
  show ?case
  proof (intro conjI allI impI)
    show "length ss' = length ss" using ih(1) len by simp
  next
    fix i assume i: "i < length ss"
    show "foldM (addLoad p) (dealt (length ss) c i (t # ts)) (ss ! i) = Some (ss' ! i)"
    proof (cases "c = i")
      case True
      then show ?thesis using ih(2) [of i] i s' by (simp add: len ss1)
    next
      case False
      then show ?thesis using ih(2) [of i] i by (simp add: len ss1)
    qed
  qed
qed

lemma RoundRobin_total:
  assumes "0 \<le> c" "c < int (length ss)" "list_all (accepts p) ts"
  shows "\<exists>st. RoundRobin_balanceLoad p (ss, c) ts = Some st"
proof -
  let ?I = "\<lambda>st. length (fst st) = length ss \<and> 0 \<le> snd st \<and> snd st < int (length ss)"
  have "\<exists>st'. foldM (RoundRobin_step p) ts (ss, c) = Some st' \<and> ?I st'"
  proof (rule foldM_total)
    show "?I (ss, c)" using assms by simp
  next
    fix t and st :: "Server list \<times> int" assume t: "t \<in> set ts" and I: "?I st"
    obtain ss0 c0 where st: "st = (ss0, c0)" by (cases st)
    have "accepts p t" using assms(3) t by (simp add: list_all_iff)
    then obtain ss1 where a: "addLoad_at p ss0 c0 t = Some ss1"
      using addLoad_at_total [of c0 ss0 p t] I st by auto
    have "length ss1 = length ss" using length_addLoad_at [OF a] I st by simp
    moreover have "0 < int (length ss)" using assms(1,2) by linarith
    ultimately show "\<exists>st'. RoundRobin_step p t st = Some st' \<and> ?I st'"
      using a I st assms(2) by (simp add: RoundRobin_step_def)
  qed
  then show ?thesis by (auto simp: RoundRobin_balanceLoad_def)
qed

lemma getLoad_addLoads:
  "foldM (addLoad p) ts s = Some s' \<Longrightarrow> getLoad p s' = getLoad p s + sum_list (map (load_gain p) ts)"
proof (induction ts arbitrary: s)
  case Nil
  then show ?case by simp
next
  case (Cons t ts)
  then show ?case by (auto split: option.splits dest!: getLoad_addLoad)
qed

lemmas RoundRobin_eval =
  RoundRobin_balanceLoad_def RoundRobin_step_def addLoad_at_def at_index_def addLoad_def
  LoadBalancer_plain_def LoadBalancer_cap_def Server_plain_def Server_cap_def getLoad_def
  getTotalLoad_def double_to_int_def upt_conv_Cons

text \<open>
  C4 (amended). Round-Robin is deterministic. On a pool of \<open>S \<ge> 1\<close> servers, with the cursor
  at 0, the policy returns, and server \<open>i\<close> is the initial server \<open>i\<close> after \<open>addLoad\<close> of exactly
  the tasks at the positions \<open>i\<close>, \<open>i + S\<close>, \<open>i + 2 S\<close>, ... in that order (every weight being
  one that \<open>addLoad\<close> accepts). With 2 servers and the tasks \<open>[3, 3, 3, 3]\<close>, both servers end
  with load 6 and the total is 12 in \<open>Plain\<close> and in \<open>Simulated\<close>; in \<open>Queued\<close> both servers
  hold the times \<open>[3, 3]\<close>, \<open>getLoad\<close> answers 2 and the total is 4.
\<close>

theorem RoundRobin_deals_in_turn:
  assumes "pool \<noteq> []" and "list_all (accepts p) taskLoads"
  shows "(\<exists>ss' c. RoundRobin_balanceLoad p (pool, 0) taskLoads = Some (ss', c)
            \<and> length ss' = length pool
            \<and> (\<forall>i<length pool.
                  foldM (addLoad p) (tasks_in_turn taskLoads (length pool) i) (pool ! i) = Some (ss' ! i)
                  \<and> getLoad p (ss' ! i)
                      = getLoad p (pool ! i) + sum_list (map (load_gain p) (tasks_in_turn taskLoads (length pool) i))))
       \<and> map_option (\<lambda>(ss', c). (map (getLoad Plain) ss', getTotalLoad Plain \<lparr>servers = ss'\<rparr>))
             (RoundRobin_balanceLoad Plain (servers (LoadBalancer_plain 2), 0) [3, 3, 3, 3])
           = Some ([6, 6], 12)
       \<and> map_option (\<lambda>(ss', c). (map (getLoad Simulated) ss', getTotalLoad Simulated \<lparr>servers = ss'\<rparr>))
             (RoundRobin_balanceLoad Simulated (servers (LoadBalancer_cap [1, 1]), 0) [3, 3, 3, 3])
           = Some ([6, 6], 12)
       \<and> map_option (\<lambda>(ss', c). (map loads ss', map (getLoad Queued) ss', getTotalLoad Queued \<lparr>servers = ss'\<rparr>))
             (RoundRobin_balanceLoad Queued (servers (LoadBalancer_cap [1, 1]), 0) [3, 3, 3, 3])
           = Some ([[3, 3], [3, 3]], [2, 2], 4)"
proof (intro conjI)
  have "0 < length pool" using assms(1) by simp
  then obtain st where st: "RoundRobin_balanceLoad p (pool, int 0) taskLoads = Some st"
    using RoundRobin_total [of "int 0" pool p taskLoads] assms(2) by auto
  obtain ss' c where sc: "st = (ss', c)" by (cases st)
  note fr = RoundRobin_from [OF st [unfolded sc] \<open>0 < length pool\<close>]
  have turn: "dealt (length pool) 0 i taskLoads = tasks_in_turn taskLoads (length pool) i" for i
    using dealt_positions [OF \<open>0 < length pool\<close>, of i taskLoads] by (simp add: tasks_in_turn_def)
  have "\<forall>i<length pool.
          foldM (addLoad p) (tasks_in_turn taskLoads (length pool) i) (pool ! i) = Some (ss' ! i)
          \<and> getLoad p (ss' ! i)
              = getLoad p (pool ! i) + sum_list (map (load_gain p) (tasks_in_turn taskLoads (length pool) i))"
    using fr getLoad_addLoads [of p _ _ "ss' ! _"] by (simp add: turn)
  then show "\<exists>ss' c. RoundRobin_balanceLoad p (pool, 0) taskLoads = Some (ss', c)
            \<and> length ss' = length pool
            \<and> (\<forall>i<length pool.
                  foldM (addLoad p) (tasks_in_turn taskLoads (length pool) i) (pool ! i) = Some (ss' ! i)
                  \<and> getLoad p (ss' ! i)
                      = getLoad p (pool ! i) + sum_list (map (load_gain p) (tasks_in_turn taskLoads (length pool) i)))"
    using st sc fr by auto
qed (simp_all add: RoundRobin_eval)

text \<open>
  C4 as stated fails in \<open>Queued\<close>, whose \<open>getLoad\<close> counts the queued tasks: no server ends
  with load 6.
\<close>

theorem RoundRobin_queued_counterexample:
  "\<not> (\<exists>ss' c. RoundRobin_balanceLoad Queued (servers (LoadBalancer_cap [1, 1]), 0) [3, 3, 3, 3] = Some (ss', c)
         \<and> getLoad Queued (ss' ! 0) = 6 \<and> getLoad Queued (ss' ! 1) = 6
         \<and> getTotalLoad Queued \<lparr>servers = ss'\<rparr> = 12)"
  by (simp add: RoundRobin_eval)

theorem RoundRobin_deals_in_turn_witness:
  "servers (LoadBalancer_plain 2) \<noteq> [] \<and> list_all (accepts Plain) [3, 3, 3, 3]
   \<and> (\<exists>ss' c. RoundRobin_balanceLoad Plain (servers (LoadBalancer_plain 2), 0) [3, 3, 3, 3] = Some (ss', c)
         \<and> length ss' = 2
         \<and> foldM (addLoad Plain) [3, 3] (Server_plain 0) = Some (ss' ! 0)
         \<and> foldM (addLoad Plain) [3, 3] (Server_plain 1) = Some (ss' ! 1)
         \<and> getLoad Plain (ss' ! 0) = 6 \<and> getLoad Plain (ss' ! 1) = 6)"
proof -
  have h1: "servers (LoadBalancer_plain 2) \<noteq> []"
    by (simp add: LoadBalancer_plain_def)
  have h2: "list_all (accepts Plain) [3, 3, 3, 3]"
    by (simp add: accepts_def)
  have t0: "tasks_in_turn [3, 3, 3, 3] 2 0 = [3, 3]" and t1: "tasks_in_turn [3, 3, 3, 3] 2 1 = [3, 3]"
    by (simp_all add: tasks_in_turn_def upt_conv_Cons)
  have len: "length (servers (LoadBalancer_plain 2)) = 2"
    and s0: "servers (LoadBalancer_plain 2) ! 0 = Server_plain 0"
    and s1: "servers (LoadBalancer_plain 2) ! 1 = Server_plain 1"
    by (simp_all add: LoadBalancer_plain_def upt_conv_Cons)
  from RoundRobin_deals_in_turn [OF h1 h2]
  obtain ss' c where r: "RoundRobin_balanceLoad Plain (servers (LoadBalancer_plain 2), 0) [3, 3, 3, 3] = Some (ss', c)"
    "length ss' = length (servers (LoadBalancer_plain 2))"
    "\<forall>i<length (servers (LoadBalancer_plain 2)).
        foldM (addLoad Plain) (tasks_in_turn [3, 3, 3, 3] (length (servers (LoadBalancer_plain 2))) i)
          (servers (LoadBalancer_plain 2) ! i) = Some (ss' ! i)
        \<and> getLoad Plain (ss' ! i)
            = getLoad Plain (servers (LoadBalancer_plain 2) ! i)
              + sum_list (map (load_gain Plain) (tasks_in_turn [3, 3, 3, 3] (length (servers (LoadBalancer_plain 2))) i))"
    by blast
  note at0 = r(3) [unfolded len, rule_format, of 0, unfolded t0 s0]
  note at1 = r(3) [unfolded len, rule_format, of 1, unfolded t1 s1]
  have "foldM (addLoad Plain) [3, 3] (Server_plain 0) = Some (ss' ! 0)"
    "foldM (addLoad Plain) [3, 3] (Server_plain 1) = Some (ss' ! 1)"
    "getLoad Plain (ss' ! 0) = 6" "getLoad Plain (ss' ! 1) = 6"
    using at0 at1 by (simp_all add: load_gain_def getLoad_def Server_plain_def)
  then show ?thesis using h1 h2 r(1,2) len by auto
qed

subsection \<open>The scan for the least load\<close>

lemma foldM_gain:
  assumes "foldM f ts st = Some st'"
    and "\<And>t u u'. f t u = Some u' \<Longrightarrow> g u' = g u + h t"
  shows "g st' = g st + sum_list (map h ts)"
  using assms(1)
proof (induction ts arbitrary: st)
  case Nil
  then show ?case by simp
next
  case (Cons t ts)
  from Cons.prems obtain u where u: "f t st = Some u" and r: "foldM f ts u = Some st'"
    by (auto split: option.splits)
  show ?case using Cons.IH [OF r] assms(2) [OF u] by (simp add: add.assoc)
qed

lemma scan_first_minimum:
  "\<exists>j<length (s0 # xs). foldl (scan_step p) (getLoad p s0, getId s0) xs
             = (getLoad p ((s0 # xs) ! j), getId ((s0 # xs) ! j))
           \<and> (\<forall>k<length (s0 # xs). getLoad p ((s0 # xs) ! j) \<le> getLoad p ((s0 # xs) ! k))
           \<and> (\<forall>k<j. getLoad p ((s0 # xs) ! j) < getLoad p ((s0 # xs) ! k))"
proof (induction xs rule: rev_induct)
  case Nil
  show ?case by (rule exI [of _ 0]) simp
next
  case (snoc x xs)
  then obtain j where j: "j < length (s0 # xs)"
    and r: "foldl (scan_step p) (getLoad p s0, getId s0) xs = (getLoad p ((s0 # xs) ! j), getId ((s0 # xs) ! j))"
    and mn: "\<forall>k<length (s0 # xs). getLoad p ((s0 # xs) ! j) \<le> getLoad p ((s0 # xs) ! k)"
    and fst: "\<forall>k<j. getLoad p ((s0 # xs) ! j) < getLoad p ((s0 # xs) ! k)"
    by blast
  have nth_old: "(s0 # xs @ [x]) ! k = (s0 # xs) ! k" if "k < length (s0 # xs)" for k
    using that by (metis append_Cons nth_append)
  have nth_new: "(s0 # xs @ [x]) ! length (s0 # xs) = x"
    by (metis append_Cons nth_append_length)
  show ?case
  proof (cases "getLoad p x < getLoad p ((s0 # xs) ! j)")
    case True
    show ?thesis
    proof (rule exI [of _ "length (s0 # xs)"], intro conjI allI impI)
      show "length (s0 # xs) < length (s0 # xs @ [x])" by simp
      show "foldl (scan_step p) (getLoad p s0, getId s0) (xs @ [x])
            = (getLoad p ((s0 # xs @ [x]) ! length (s0 # xs)), getId ((s0 # xs @ [x]) ! length (s0 # xs)))"
        using True r by (simp only: nth_new foldl_append) (simp add: scan_step_def)
    next
      fix k assume "k < length (s0 # xs @ [x])"
      then consider "k < length (s0 # xs)" | "k = length (s0 # xs)" by fastforce
      then show "getLoad p ((s0 # xs @ [x]) ! length (s0 # xs)) \<le> getLoad p ((s0 # xs @ [x]) ! k)"
      proof cases
        case 1
        then show ?thesis using mn True by (simp only: nth_new nth_old) force
      next
        case 2
        then show ?thesis by simp
      qed
    next
      fix k assume k: "k < length (s0 # xs)"
      have "getLoad p x < getLoad p ((s0 # xs) ! k)" using mn k True by force
      then show "getLoad p ((s0 # xs @ [x]) ! length (s0 # xs)) < getLoad p ((s0 # xs @ [x]) ! k)"
        using k by (simp only: nth_new nth_old)
    qed
  next
    case False
    show ?thesis
    proof (rule exI [of _ j], intro conjI allI impI)
      show "j < length (s0 # xs @ [x])" using j by simp
      show "foldl (scan_step p) (getLoad p s0, getId s0) (xs @ [x])
            = (getLoad p ((s0 # xs @ [x]) ! j), getId ((s0 # xs @ [x]) ! j))"
        using False r j by (simp only: nth_old foldl_append) (simp add: scan_step_def)
    next
      fix k assume "k < length (s0 # xs @ [x])"
      then consider "k < length (s0 # xs)" | "k = length (s0 # xs)" by fastforce
      then show "getLoad p ((s0 # xs @ [x]) ! j) \<le> getLoad p ((s0 # xs @ [x]) ! k)"
      proof cases
        case 1
        then show ?thesis using mn j by (simp only: nth_old)
      next
        case 2
        then show ?thesis using False j by (simp only: nth_new nth_old)
      qed
    next
      fix k assume k: "k < j"
      then have "k < length (s0 # xs)" using j by simp
      then show "getLoad p ((s0 # xs @ [x]) ! j) < getLoad p ((s0 # xs @ [x]) ! k)"
        using fst k j by (simp only: nth_old)
    qed
  qed
qed

lemma updateCurrentServer_scan:
  "updateCurrentServer p ss = (case ss of [] \<Rightarrow> None | s0 # rest \<Rightarrow>
       Some (snd (foldl (scan_step p) (getLoad p s0, getId s0) rest)))"
  by (cases ss) (simp_all add: updateCurrentServer_def scan_step_def)

lemma minLoadServer_scan:
  "minLoadServer p ss = (case ss of [] \<Rightarrow> None | s0 # rest \<Rightarrow>
       Some (snd (foldl (scan_step p) (getLoad p s0, getId s0) rest)))"
  by (cases ss) (simp_all add: minLoadServer_def scan_step_def)

lemma minLoadServer_updateCurrentServer: "minLoadServer p ss = updateCurrentServer p ss"
  by (simp add: updateCurrentServer_scan minLoadServer_scan)

lemma updateCurrentServer_first_minimum:
  assumes "ss \<noteq> []"
  shows "\<exists>j<length ss. updateCurrentServer p ss = Some (getId (ss ! j))
           \<and> (\<forall>k<length ss. getLoad p (ss ! j) \<le> getLoad p (ss ! k))
           \<and> (\<forall>k<j. getLoad p (ss ! j) < getLoad p (ss ! k))"
proof -
  obtain s0 rest where ss: "ss = s0 # rest" using assms by (cases ss) auto
  from scan_first_minimum [where ?s0.0 = s0 and xs = rest and p = p]
  obtain j where "j < length ss"
    "foldl (scan_step p) (getLoad p s0, getId s0) rest = (getLoad p (ss ! j), getId (ss ! j))"
    "\<forall>k<length ss. getLoad p (ss ! j) \<le> getLoad p (ss ! k)"
    "\<forall>k<j. getLoad p (ss ! j) < getLoad p (ss ! k)"
    unfolding ss by blast
  then show ?thesis
    by (intro exI [of _ j]) (simp add: updateCurrentServer_scan ss)
qed


lemma ids_position: "ids_are_positions ss \<Longrightarrow> j < length ss \<Longrightarrow> getId (ss ! j) = int j"
proof -
  assume a: "ids_are_positions ss" "j < length ss"
  then have "map getId ss ! j = map int [0..<length ss] ! j"
    by (simp add: ids_are_positions_def)
  then show ?thesis using a(2) by simp
qed

lemma ids_addLoad_at_positions:
  "addLoad_at p ss i t = Some ss' \<Longrightarrow> ids_are_positions ss \<Longrightarrow> ids_are_positions ss'"
  using ids_addLoad_at [of p ss i t ss'] length_addLoad_at [of p ss i t ss']
  by (simp add: ids_are_positions_def)

lemma updateCurrentServer_in_range:
  assumes "ss \<noteq> []" "ids_are_positions ss"
  shows "\<exists>c. updateCurrentServer p ss = Some c \<and> 0 \<le> c \<and> c < int (length ss)"
proof -
  from updateCurrentServer_first_minimum [OF assms(1), of p]
  obtain j where "j < length ss" "updateCurrentServer p ss = Some (getId (ss ! j))" by blast
  then show ?thesis using ids_position [OF assms(2), of j] by simp
qed

lemma updateCurrentServer_equal_loads:
  assumes "ss \<noteq> []" "list_all (\<lambda>s. getLoad p s = 0) ss"
  shows "updateCurrentServer p ss = Some (getId (ss ! 0))"
proof -
  from updateCurrentServer_first_minimum [OF assms(1), of p]
  obtain j where j: "j < length ss" "updateCurrentServer p ss = Some (getId (ss ! j))"
    "\<forall>k<j. getLoad p (ss ! j) < getLoad p (ss ! k)" by blast
  have z: "getLoad p (ss ! k) = 0" if "k < length ss" for k
    using assms(2) that by (simp add: list_all_length)
  have "j = 0"
  proof (rule ccontr)
    assume "j \<noteq> 0"
    then have "getLoad p (ss ! j) < getLoad p (ss ! 0)" using j(3) by simp
    moreover have "getLoad p (ss ! j) = 0" using z [OF j(1)] .
    moreover have "getLoad p (ss ! 0) = 0" using z [of 0] assms(1) by simp
    ultimately show False by simp
  qed
  then show ?thesis using j(2) by simp
qed

subsection \<open>Weighted Round-Robin, Active Clustering and Random\<close>

lemma WeightedRoundRobin_step_Some:
  "WeightedRoundRobin_step p t (ss, c) = Some (ss', c') \<longleftrightarrow>
     addLoad_at p ss c t = Some ss' \<and> updateCurrentServer p ss' = Some c'"
  by (auto simp: WeightedRoundRobin_step_def bind_eq_Some_conv)

lemma ActiveClustering_step_Some:
  "ActiveClustering_step p t ss = Some ss' \<longleftrightarrow>
     (\<exists>m. minLoadServer p ss = Some m \<and> addLoad_at p ss m t = Some ss')"
  by (auto simp: ActiveClustering_step_def bind_eq_Some_conv)

lemma WeightedRoundRobin_total:
  assumes "ids_are_positions ss" "0 \<le> c" "c < int (length ss)" "list_all (accepts p) ts"
  shows "\<exists>st. WeightedRoundRobin_balanceLoad p (ss, c) ts = Some st"
proof -
  let ?I = "\<lambda>st. length (fst st) = length ss \<and> ids_are_positions (fst st) \<and> 0 \<le> snd st \<and> snd st < int (length ss)"
  have "\<exists>st'. foldM (WeightedRoundRobin_step p) ts (ss, c) = Some st' \<and> ?I st'"
  proof (rule foldM_total)
    show "?I (ss, c)" using assms by simp
  next
    fix t and st :: "Server list \<times> int" assume t: "t \<in> set ts" and I: "?I st"
    obtain ss0 c0 where st: "st = (ss0, c0)" by (cases st)
    have "accepts p t" using assms(4) t by (simp add: list_all_iff)
    then obtain ss1 where a: "addLoad_at p ss0 c0 t = Some ss1"
      using addLoad_at_total [of c0 ss0 p t] I st by auto
    have len: "length ss1 = length ss" using length_addLoad_at [OF a] I st by simp
    have ids: "ids_are_positions ss1" using ids_addLoad_at_positions [OF a] I st by simp
    have "ss1 \<noteq> []" using len assms(2,3) by auto
    from updateCurrentServer_in_range [OF this ids, of p]
    obtain c1 where "updateCurrentServer p ss1 = Some c1" "0 \<le> c1" "c1 < int (length ss1)" by blast
    then have "WeightedRoundRobin_step p t st = Some (ss1, c1) \<and> ?I (ss1, c1)"
      using a len ids st by (simp add: WeightedRoundRobin_step_Some)
    then show "\<exists>st'. WeightedRoundRobin_step p t st = Some st' \<and> ?I st'" by blast
  qed
  then show ?thesis by (auto simp: WeightedRoundRobin_balanceLoad_def)
qed

lemma WeightedRoundRobin_gain:
  assumes "WeightedRoundRobin_balanceLoad p st ts = Some st'"
  shows "sum_list (map (getLoad p) (fst st')) = sum_list (map (getLoad p) (fst st)) + sum_list (map (load_gain p) ts)"
proof (rule foldM_gain [where f = "WeightedRoundRobin_step p" and g = "\<lambda>st. sum_list (map (getLoad p) (fst st))"])
  show "foldM (WeightedRoundRobin_step p) ts st = Some st'"
    using assms by (simp add: WeightedRoundRobin_balanceLoad_def)
next
  fix t and u u' :: "Server list \<times> int"
  assume "WeightedRoundRobin_step p t u = Some u'"
  then show "sum_list (map (getLoad p) (fst u')) = sum_list (map (getLoad p) (fst u)) + load_gain p t"
    by (cases u; cases u') (auto simp: WeightedRoundRobin_step_Some dest: total_addLoad_at)
qed

lemma RoundRobin_gain:
  assumes "RoundRobin_balanceLoad p st ts = Some st'"
  shows "sum_list (map (getLoad p) (fst st')) = sum_list (map (getLoad p) (fst st)) + sum_list (map (load_gain p) ts)"
proof (rule foldM_gain [where f = "RoundRobin_step p" and g = "\<lambda>st. sum_list (map (getLoad p) (fst st))"])
  show "foldM (RoundRobin_step p) ts st = Some st'"
    using assms by (simp add: RoundRobin_balanceLoad_def)
next
  fix t and u u' :: "Server list \<times> int"
  assume "RoundRobin_step p t u = Some u'"
  then show "sum_list (map (getLoad p) (fst u')) = sum_list (map (getLoad p) (fst u)) + load_gain p t"
    by (cases u; cases u') (auto simp: RoundRobin_step_def bind_eq_Some_conv dest: total_addLoad_at)
qed

lemma ActiveClustering_total:
  assumes "ss \<noteq> []" "ids_are_positions ss" "list_all (accepts p) ts"
  shows "\<exists>ss'. ActiveClustering_balanceLoad p ss ts = Some ss'"
proof -
  let ?I = "\<lambda>u. length u = length ss \<and> ids_are_positions u"
  have "\<exists>ss'. foldM (ActiveClustering_step p) ts ss = Some ss' \<and> ?I ss'"
  proof (rule foldM_total)
    show "?I ss" using assms by simp
  next
    fix t and u :: "Server list" assume t: "t \<in> set ts" and I: "?I u"
    have "accepts p t" using assms(3) t by (simp add: list_all_iff)
    have "u \<noteq> []" using I assms(1) by auto
    from updateCurrentServer_in_range [OF this, of p] I
    obtain m where m: "minLoadServer p u = Some m" "0 \<le> m" "m < int (length u)"
      by (auto simp: minLoadServer_updateCurrentServer)
    obtain u' where a: "addLoad_at p u m t = Some u'"
      using addLoad_at_total [OF m(2,3) \<open>accepts p t\<close>] by blast
    have "?I u'" using length_addLoad_at [OF a] ids_addLoad_at_positions [OF a] I by simp
    then show "\<exists>u'. ActiveClustering_step p t u = Some u' \<and> ?I u'"
      using m(1) a by (auto simp: ActiveClustering_step_Some)
  qed
  then show ?thesis by (auto simp: ActiveClustering_balanceLoad_def)
qed

lemma ActiveClustering_gain:
  assumes "ActiveClustering_balanceLoad p ss ts = Some ss'"
  shows "sum_list (map (getLoad p) ss') = sum_list (map (getLoad p) ss) + sum_list (map (load_gain p) ts)"
proof (rule foldM_gain [where f = "ActiveClustering_step p" and g = "\<lambda>u. sum_list (map (getLoad p) u)"])
  show "foldM (ActiveClustering_step p) ts ss = Some ss'"
    using assms by (simp add: ActiveClustering_balanceLoad_def)
next
  fix t and u u' :: "Server list"
  assume "ActiveClustering_step p t u = Some u'"
  then show "sum_list (map (getLoad p) u') = sum_list (map (getLoad p) u) + load_gain p t"
    by (auto simp: ActiveClustering_step_Some dest: total_addLoad_at)
qed

lemma draw_step_Some:
  "draw_step p rs t (ss, k) = Some (ss', k') \<longleftrightarrow> addLoad_at p ss (ints rs k) t = Some ss' \<and> k' = Suc k"
  by (auto simp: draw_step_def bind_eq_Some_conv)

lemma Random_balanceLoad_draws:
  "Random_balanceLoad p rs ss ts = (if ss = [] then None else map_option fst (foldM (draw_step p rs) ts (ss, 0)))"
  by (simp add: Random_balanceLoad_def draw_step_def)

lemma draws_total:
  assumes "\<forall>k. 0 \<le> ints rs k \<and> ints rs k < int (length ss)" "list_all (accepts p) ts"
  shows "\<exists>st. foldM (draw_step p rs) ts (ss, k) = Some st"
proof -
  let ?I = "\<lambda>st :: Server list \<times> nat. length (fst st) = length ss"
  have "\<exists>st'. foldM (draw_step p rs) ts (ss, k) = Some st' \<and> ?I st'"
  proof (rule foldM_total)
    show "?I (ss, k)" by simp
  next
    fix t and st :: "Server list \<times> nat" assume t: "t \<in> set ts" and I: "?I st"
    obtain ss0 k0 where st: "st = (ss0, k0)" by (cases st)
    have "accepts p t" using assms(2) t by (simp add: list_all_iff)
    then obtain ss1 where a: "addLoad_at p ss0 (ints rs k0) t = Some ss1"
      using addLoad_at_total [of "ints rs k0" ss0 p t] I st assms(1) by auto
    then show "\<exists>st'. draw_step p rs t st = Some st' \<and> ?I st'"
      using length_addLoad_at [OF a] I st by (simp add: draw_step_Some)
  qed
  then show ?thesis by auto
qed

lemma draws_gain:
  assumes "foldM (draw_step p rs) ts st = Some st'"
  shows "sum_list (map (getLoad p) (fst st')) = sum_list (map (getLoad p) (fst st)) + sum_list (map (load_gain p) ts)"
proof (rule foldM_gain [where f = "draw_step p rs" and g = "\<lambda>st. sum_list (map (getLoad p) (fst st))"])
  show "foldM (draw_step p rs) ts st = Some st'" by (rule assms)
next
  fix t and u u' :: "Server list \<times> nat"
  assume "draw_step p rs t u = Some u'"
  then show "sum_list (map (getLoad p) (fst u')) = sum_list (map (getLoad p) (fst u)) + load_gain p t"
    by (cases u; cases u') (auto simp: draw_step_Some dest: total_addLoad_at)
qed

lemma WeightedRoundRobin_ActiveClustering:
  assumes "updateCurrentServer p ss = Some c"
  shows "map_option fst (WeightedRoundRobin_balanceLoad p (ss, c) ts) = ActiveClustering_balanceLoad p ss ts
         \<and> (\<forall>ss' c'. WeightedRoundRobin_balanceLoad p (ss, c) ts = Some (ss', c') \<longrightarrow> minLoadServer p ss' = Some c')"
  using assms
proof (induction ts arbitrary: ss c)
  case Nil
  then show ?case
    by (simp add: WeightedRoundRobin_balanceLoad_def ActiveClustering_balanceLoad_def minLoadServer_updateCurrentServer)
next
  case (Cons t ts)
  have ac: "ActiveClustering_step p t ss = addLoad_at p ss c t"
    using Cons.prems by (simp add: ActiveClustering_step_def minLoadServer_updateCurrentServer)
  show ?case
  proof (cases "addLoad_at p ss c t")
    case None
    then show ?thesis using ac
      by (simp add: WeightedRoundRobin_balanceLoad_def ActiveClustering_balanceLoad_def WeightedRoundRobin_step_def)
  next
    case (Some ss1)
    have "ss1 \<noteq> []" using Some by (auto simp: addLoad_at_Some)
    then obtain c1 where c1: "updateCurrentServer p ss1 = Some c1"
      using updateCurrentServer_first_minimum [of ss1 p] by blast
    have step: "WeightedRoundRobin_step p t (ss, c) = Some (ss1, c1)"
      using Some c1 by (simp add: WeightedRoundRobin_step_Some)
    show ?thesis using Cons.IH [OF c1] step ac Some
      by (simp add: WeightedRoundRobin_balanceLoad_def ActiveClustering_balanceLoad_def)
  qed
qed

lemma updateCurrentServer_capability:
  "updateCurrentServer p (map (\<lambda>s. s\<lparr>capability := f s\<rparr>) ss) = updateCurrentServer p ss"
proof -
  have l: "getLoad p (s\<lparr>capability := x\<rparr>) = getLoad p s" for s x
    by (cases p) (simp_all add: getLoad_def)
  have i: "getId (s\<lparr>capability := x\<rparr>) = getId s" for s x
    by (simp add: getId_def)
  have st: "scan_step p a (s\<lparr>capability := x\<rparr>) = scan_step p a s" for a s x
    by (cases a) (simp add: scan_step_def l i)
  have "foldl (scan_step p) a (map (\<lambda>s. s\<lparr>capability := f s\<rparr>) xs) = foldl (scan_step p) a xs" for a xs
    by (induction xs arbitrary: a) (simp_all add: st)
  then show ?thesis
    by (cases ss) (simp_all add: updateCurrentServer_scan l i)
qed


lemma ids_LoadBalancer_cap: "ids_are_positions (servers (LoadBalancer_cap capabilities))"
  by (simp add: ids_are_positions_def LoadBalancer_cap_def getId_def Server_cap_def o_def)

lemma ids_LoadBalancer_plain: "ids_are_positions (servers (LoadBalancer_plain numServers))"
  by (simp add: ids_are_positions_def LoadBalancer_plain_def getId_def Server_plain_def o_def)

lemma fresh_LoadBalancer_cap: "list_all (\<lambda>s. getLoad p s = 0) (servers (LoadBalancer_cap capabilities))"
  by (cases p) (simp_all add: list_all_iff LoadBalancer_cap_def getLoad_def Server_cap_def)

lemma fresh_LoadBalancer_plain: "list_all (\<lambda>s. getLoad p s = 0) (servers (LoadBalancer_plain numServers))"
  by (cases p) (simp_all add: list_all_iff LoadBalancer_plain_def getLoad_def Server_plain_def)


lemma fresh_total: "list_all (\<lambda>s. getLoad p s = 0) ss \<Longrightarrow> sum_list (map (getLoad p) ss) = 0"
  by (induction ss) simp_all

lemmas policies_eval =
  balanceLoad_def RoundRobin_balanceLoad_def RoundRobin_step_def
  WeightedRoundRobin_balanceLoad_def WeightedRoundRobin_step_def updateCurrentServer_def
  ActiveClustering_balanceLoad_def ActiveClustering_step_def minLoadServer_def
  Random_balanceLoad_def addLoad_at_def at_index_def addLoad_def
  LoadBalancer_plain_def LoadBalancer_cap_def Server_plain_def Server_cap_def getLoad_def getId_def
  getTotalLoad_def double_to_int_def upt_conv_Cons

lemma policies_total_load:
  assumes "pool \<noteq> []" and "ids_are_positions pool"
    and "list_all (accepts p) taskLoads"
    and "\<forall>k. 0 \<le> ints rs k \<and> ints rs k < int (length pool)"
    and "pol \<noteq> AntColonyOptimization"
  shows "\<exists>ss'. balanceLoad p pol rs pool taskLoads = Some ss'
           \<and> sum_list (map (getLoad p) ss')
               = sum_list (map (getLoad p) pool) + sum_list (map (load_gain p) taskLoads)"
proof (cases pol)
  case Random
  obtain st where st: "foldM (draw_step p rs) taskLoads (pool, 0) = Some st"
    using draws_total [OF assms(4,3)] by blast
  show ?thesis using draws_gain [OF st] st assms(1) Random
    by (simp add: balanceLoad_def Random_balanceLoad_draws)
next
  case RoundRobin
  have pos: "0 < int (length pool)" using assms(1) by simp
  obtain st where st: "RoundRobin_balanceLoad p (pool, 0) taskLoads = Some st"
    using RoundRobin_total [OF _ pos assms(3)] by auto
  show ?thesis using RoundRobin_gain [OF st] st RoundRobin by (simp add: balanceLoad_def)
next
  case WeightedRoundRobin
  have pos: "0 < int (length pool)" using assms(1) by simp
  obtain st where st: "WeightedRoundRobin_balanceLoad p (pool, 0) taskLoads = Some st"
    using WeightedRoundRobin_total [OF assms(2) _ pos assms(3)] by auto
  show ?thesis using WeightedRoundRobin_gain [OF st] st WeightedRoundRobin by (simp add: balanceLoad_def)
next
  case ActiveClustering
  obtain ss' where st: "ActiveClustering_balanceLoad p pool taskLoads = Some ss'"
    using ActiveClustering_total [OF assms(1,2,3)] by blast
  show ?thesis using ActiveClustering_gain [OF st] st ActiveClustering by (simp add: balanceLoad_def)
next
  case AntColonyOptimization
  then show ?thesis using assms(5) by simp
qed

subsection \<open>Rounding to the nearest double\<close>

lemma pow2_powi: "pow2 k = 2 powi k"
  by (simp add: pow2_def power_int_def field_simps)

lemma pow2_pos: "0 < pow2 k" by (simp add: pow2_powi)

lemma pow2_add: "pow2 (i + j) = pow2 i * pow2 j"
  by (simp add: pow2_powi power_int_add)

lemma pow2_diff: "pow2 (i - j) = pow2 i / pow2 j"
  by (simp add: pow2_powi power_int_diff)

lemma pow2_mono: "i \<le> j \<Longrightarrow> pow2 i \<le> pow2 j"
  by (simp add: pow2_powi power_int_increasing)

lemma exponent_bounds:
  assumes "x \<noteq> 0"
  shows "pow2 (exponent_of x) \<le> \<bar>x\<bar> \<and> \<bar>x\<bar> < pow2 (exponent_of x + 1)"
proof (cases "1 \<le> \<bar>x\<bar>")
  case True
  define n where "n = \<lfloor>\<bar>x\<bar>\<rfloor>"
  have n1: "1 \<le> n" using True by (simp add: n_def le_floor_iff)
  then have n0: "0 < n" by simp
  have e: "exponent_of x = bitlen n - 1" using True by (simp add: exponent_of_def n_def)
  have b1: "1 \<le> bitlen n" using n0 by (simp add: bitlen_ge_iff_power)
  from bitlen_bounds [OF n0] have lo: "2 ^ nat (bitlen n - 1) \<le> n" and hi: "n < 2 ^ nat (bitlen n)"
    by simp_all
  have "pow2 (bitlen n - 1) = of_int (2 ^ nat (bitlen n - 1))" using b1 by (simp add: pow2_def)
  also have "\<dots> \<le> of_int n" using lo by (simp only: of_int_le_iff)
  also have "\<dots> \<le> \<bar>x\<bar>" by (simp add: n_def)
  finally have l: "pow2 (exponent_of x) \<le> \<bar>x\<bar>" by (simp add: e)
  have "n + 1 \<le> 2 ^ nat (bitlen n)" using hi by simp
  then have "real_of_int (n + 1) \<le> of_int (2 ^ nat (bitlen n))" by (simp only: of_int_le_iff)
  moreover have "\<bar>x\<bar> < real_of_int (n + 1)" by (simp add: n_def)
  moreover have "pow2 (bitlen n) = of_int (2 ^ nat (bitlen n))" using b1 by (simp add: pow2_def)
  ultimately have "\<bar>x\<bar> < pow2 (exponent_of x + 1)" by (simp add: e)
  with l show ?thesis by simp
next
  case False
  define r where "r = 1 / \<bar>x\<bar>"
  define m where "m = \<lceil>r\<rceil> - 1"
  have xp: "0 < \<bar>x\<bar>" using assms by simp
  have r1: "1 < r" using False xp by (simp add: r_def)
  have mr: "of_int m < r" by (simp add: m_def) linarith
  have rm: "r \<le> of_int (m + 1)" by (simp add: m_def)
  have m1: "1 \<le> m" using r1 by (simp add: m_def)
  then have m0: "0 < m" by simp
  have e: "exponent_of x = - bitlen m" using False by (simp add: exponent_of_def m_def r_def)
  have b1: "1 \<le> bitlen m" using m0 by (simp add: bitlen_ge_iff_power)
  from bitlen_bounds [OF m0] have lo: "2 ^ nat (bitlen m - 1) \<le> m" and hi: "m < 2 ^ nat (bitlen m)"
    by simp_all
  have "m + 1 \<le> 2 ^ nat (bitlen m)" using hi by simp
  then have "real_of_int (m + 1) \<le> of_int (2 ^ nat (bitlen m))" by (simp only: of_int_le_iff)
  then have rle: "r \<le> 2 ^ nat (bitlen m)" using rm by simp
  have "(2::real) ^ nat (bitlen m - 1) \<le> of_int m" using lo by simp
  then have rgt: "2 ^ nat (bitlen m - 1) < r" using mr by linarith
  have x: "\<bar>x\<bar> = 1 / r" by (simp add: r_def)
  have rp: "0 < r" using r1 by simp
  have p1: "pow2 (- bitlen m) = 1 / 2 ^ nat (bitlen m)" using b1 by (simp add: pow2_def)
  have p2: "pow2 (1 - bitlen m) = 1 / 2 ^ nat (bitlen m - 1)"
    using b1 by (cases "bitlen m = 1") (simp_all add: pow2_def)
  have "1 / 2 ^ nat (bitlen m) \<le> 1 / r" using rle rp by (simp add: frac_le)
  moreover have "1 / r < 1 / 2 ^ nat (bitlen m - 1)" using rgt by (simp add: frac_less2)
  ultimately show ?thesis by (simp add: e p1 p2 x)
qed

lemma exponent_unique:
  assumes "pow2 e \<le> \<bar>x\<bar>" "\<bar>x\<bar> < pow2 (e + 1)"
  shows "exponent_of x = e"
proof -
  have x0: "x \<noteq> 0" using assms(1) pow2_pos [of e] by auto
  note b = exponent_bounds [OF x0]
  have "\<not> exponent_of x < e"
  proof
    assume "exponent_of x < e"
    then have "pow2 (exponent_of x + 1) \<le> pow2 e" by (intro pow2_mono) simp
    then show False using b assms by linarith
  qed
  moreover have "\<not> e < exponent_of x"
  proof
    assume "e < exponent_of x"
    then have "pow2 (e + 1) \<le> pow2 (exponent_of x)" by (intro pow2_mono) simp
    then show False using b assms by linarith
  qed
  ultimately show ?thesis by simp
qed

lemma round_even_of_int: "round_even (of_int n) = n"
  by (simp add: round_even_def)








lemma double_round_representable:
  assumes "\<bar>n\<bar> < 2 ^ 53" "- 1074 \<le> g" "g \<le> 971"
  shows "double_round (of_int n * pow2 g) = Some (of_int n * pow2 g)"
proof (cases "n = 0")
  case True
  then show ?thesis by (simp add: double_round_def)
next
  case False
  define x where "x = real_of_int n * pow2 g"
  define b where "b = bitlen \<bar>n\<bar>"
  have n0: "0 < \<bar>n\<bar>" using False by simp
  have x0: "x \<noteq> 0" using False pow2_pos [of g] by (simp add: x_def)
  have b1: "1 \<le> b" unfolding b_def using n0 by (simp add: bitlen_ge_iff_power)
  have b53: "b \<le> 53" unfolding b_def using assms(1) by (simp add: bitlen_le_iff_power)
  from bitlen_bounds [OF n0] have lo: "2 ^ nat (b - 1) \<le> \<bar>n\<bar>" and hi: "\<bar>n\<bar> < 2 ^ nat b"
    by (simp_all add: b_def)
  have ax: "\<bar>x\<bar> = of_int \<bar>n\<bar> * pow2 g" using pow2_pos [of g] by (simp add: x_def abs_mult)
  have lo': "pow2 (b - 1) \<le> of_int \<bar>n\<bar>"
  proof -
    have "pow2 (b - 1) = of_int (2 ^ nat (b - 1))" using b1 by (simp add: pow2_def)
    also have "\<dots> \<le> of_int \<bar>n\<bar>" using lo by (simp only: of_int_le_iff)
    finally show ?thesis .
  qed
  have hi': "real_of_int \<bar>n\<bar> < pow2 b"
  proof -
    have "real_of_int \<bar>n\<bar> < of_int (2 ^ nat b)" using hi by (simp only: of_int_less_iff)
    also have "\<dots> = pow2 b" using b1 by (simp add: pow2_def)
    finally show ?thesis .
  qed
  have e: "exponent_of x = b - 1 + g"
  proof (rule exponent_unique)
    have "pow2 (b - 1 + g) = pow2 (b - 1) * pow2 g" by (rule pow2_add)
    also have "\<dots> \<le> of_int \<bar>n\<bar> * pow2 g" using lo' pow2_pos [of g] by (simp add: mult_right_mono)
    finally show "pow2 (b - 1 + g) \<le> \<bar>x\<bar>" by (simp add: ax)
    have "\<bar>x\<bar> < pow2 b * pow2 g" unfolding ax using hi' pow2_pos [of g] by (simp add: mult_strict_right_mono)
    also have "\<dots> = pow2 (b - 1 + g + 1)" by (simp flip: pow2_add)
    finally show "\<bar>x\<bar> < pow2 (b - 1 + g + 1)" .
  qed
  define E where "E = max (b - 1 + g) (- 1022) - 52"
  have gE: "E \<le> g" using b53 assms(2) by (simp add: E_def)
  have "x / pow2 E = of_int n * pow2 (g - E)" by (simp add: x_def pow2_diff)
  also have "pow2 (g - E) = of_int (2 ^ nat (g - E))" using gE by (simp add: pow2_def)
  finally have q: "x / pow2 E = of_int (n * 2 ^ nat (g - E))" by simp
  have "of_int (round_even (x / pow2 E)) * pow2 E = (x / pow2 E) * pow2 E"
    unfolding q round_even_of_int ..
  also have "\<dots> = x" using pow2_pos [of E] by simp
  finally have r: "of_int (round_even (x / pow2 E)) * pow2 E = x" .
  have "\<bar>x\<bar> < pow2 53 * pow2 g"
  proof -
    have "real_of_int \<bar>n\<bar> < pow2 53" using hi' b53 pow2_mono [of b 53] by linarith
    then show ?thesis unfolding ax using pow2_pos [of g] by (simp add: mult_strict_right_mono)
  qed
  also have "\<dots> = pow2 (53 + g)" by (simp flip: pow2_add)
  also have "\<dots> \<le> pow2 1024" using assms(3) by (intro pow2_mono) simp
  also have "\<dots> = 2 ^ 1024" by (simp add: pow2_def)
  finally have ov: "\<not> 2 ^ 1024 \<le> \<bar>x\<bar>" by simp
  have "double_round x = Some x"
    using x0 ov by (simp add: double_round_def e Let_def r flip: E_def)
  then show ?thesis by (simp add: x_def)
qed

lemma double_round_of_int:
  assumes "\<bar>n\<bar> \<le> 2 ^ 53"
  shows "double_round (of_int n) = Some (of_int n)"
proof (cases "\<bar>n\<bar> < 2 ^ 53")
  case True
  from double_round_representable [OF True, of 0] show ?thesis by (simp add: pow2_def)
next
  case False
  then have "\<bar>n\<bar> = 2 ^ 53" using assms by simp
  then have n: "\<bar>n\<bar> = 9007199254740992" by simp
  have d: "n = 2 * (n div 2)" using n by presburger
  have "\<bar>n div 2\<bar> < 9007199254740992" using n by presburger
  then have "\<bar>n div 2\<bar> < 2 ^ 53" by simp
  from double_round_representable [OF this, of 1]
  have "double_round (of_int (n div 2) * 2) = Some (of_int (n div 2) * 2)" by (simp add: pow2_def)
  moreover have "real_of_int (n div 2) * 2 = of_int n" using d by linarith
  ultimately show ?thesis by simp
qed












subsection \<open>The policies in binary64\<close>

















subsection \<open>Conservation of the assigned work\<close>












lemma WeightedRoundRobin_last_cursor:
  assumes "WeightedRoundRobin_balanceLoad p st ts = Some (ss', c')" "ts \<noteq> []"
  shows "updateCurrentServer p ss' = Some c'"
proof -
  have ts: "ts = butlast ts @ [last ts]" using assms(2) by simp
  from assms(1) obtain u where "WeightedRoundRobin_step p (last ts) u = Some (ss', c')"
    unfolding WeightedRoundRobin_balanceLoad_def
    by (subst (asm) ts) (auto simp: foldM_append split: option.splits)
  then show ?thesis by (cases u) (simp add: WeightedRoundRobin_step_Some)
qed

lemma WeightedRoundRobin_length:
  assumes "WeightedRoundRobin_balanceLoad p st ts = Some st'"
  shows "length (fst st') = length (fst st)"
proof (rule foldM_preserves [where I = "\<lambda>u. length (fst u) = length (fst st)" and f = "WeightedRoundRobin_step p"])
  fix x and t t' :: "Server list \<times> int"
  assume "length (fst t) = length (fst st)" "WeightedRoundRobin_step p x t = Some t'"
  then show "length (fst t') = length (fst st)"
    by (cases t; cases t') (auto simp: WeightedRoundRobin_step_Some dest: length_addLoad_at)
next
  show "length (fst st) = length (fst st)" by simp
  show "foldM (WeightedRoundRobin_step p) ts st = Some st'"
    using assms by (simp add: WeightedRoundRobin_balanceLoad_def)
qed

text \<open>
  C5. On a non-empty pool \<open>updateCurrentServer\<close> answers the id of the server at the first
  position \<open>j\<close> that holds the least load: no load is smaller and every earlier load is
  strictly larger; on a pool whose ids are the positions that is the lowest id among the
  least loaded servers. The capabilities play no role. One step of the Weighted-Round-Robin
  policy, with the cursor in range and a weight that \<open>addLoad\<close> accepts, returns: it adds the
  task to the server under the cursor and leaves as new cursor the answer of
  \<open>updateCurrentServer\<close> on the servers so changed, the id at the first position of their least
  load; the same holds of the step in binary64, whenever the rounded sum is finite. On a
  pool whose ids are the positions the whole policy returns after every prefix of the
  tasks, and after every assignment its cursor is that answer.
\<close>

theorem updateCurrentServer_least_loaded:
  assumes "ss \<noteq> []"
  shows "(\<exists>j<length ss. updateCurrentServer p ss = Some (getId (ss ! j))
            \<and> (\<forall>k<length ss. getLoad p (ss ! j) \<le> getLoad p (ss ! k))
            \<and> (\<forall>k<j. getLoad p (ss ! j) < getLoad p (ss ! k))
            \<and> (ids_are_positions ss \<longrightarrow> updateCurrentServer p ss = Some (int j)))
       \<and> updateCurrentServer p (map (\<lambda>s. s\<lparr>capability := f s\<rparr>) ss) = updateCurrentServer p ss
       \<and> (\<forall>t c ss' c'. WeightedRoundRobin_step p t (ss, c) = Some (ss', c')
             \<longrightarrow> updateCurrentServer p ss' = Some c')
       \<and> (\<forall>t c. 0 \<le> c \<and> c < int (length ss) \<and> accepts p t \<longrightarrow>
             (\<exists>s' j. addLoad p t (ss ! nat c) = Some s' \<and> j < length ss
                 \<and> WeightedRoundRobin_step p t (ss, c)
                     = Some (ss[nat c := s'], getId (ss[nat c := s'] ! j))
                 \<and> (\<forall>k<length ss. getLoad p (ss[nat c := s'] ! j) \<le> getLoad p (ss[nat c := s'] ! k))
                 \<and> (\<forall>k<j. getLoad p (ss[nat c := s'] ! j) < getLoad p (ss[nat c := s'] ! k))))
       \<and> (\<forall>t c s'. 0 \<le> c \<and> c < int (length ss) \<and> addLoad_double p t (ss ! nat c) = Some s' \<longrightarrow>
             (\<exists>j<length ss. WeightedRoundRobin_step_double p t (ss, c)
                     = Some (ss[nat c := s'], getId (ss[nat c := s'] ! j))
                 \<and> (\<forall>k<length ss. getLoad p (ss[nat c := s'] ! j) \<le> getLoad p (ss[nat c := s'] ! k))
                 \<and> (\<forall>k<j. getLoad p (ss[nat c := s'] ! j) < getLoad p (ss[nat c := s'] ! k))))
       \<and> (ids_are_positions ss \<and> list_all (accepts p) taskLoads \<longrightarrow>
             (\<forall>n. \<exists>ss' c'. WeightedRoundRobin_balanceLoad p (ss, 0) (take n taskLoads) = Some (ss', c')
                 \<and> length ss' = length ss
                 \<and> (take n taskLoads \<noteq> [] \<longrightarrow> updateCurrentServer p ss' = Some c')))"
proof (intro conjI)
  from updateCurrentServer_first_minimum [OF assms, of p]
  obtain j where j: "j < length ss" "updateCurrentServer p ss = Some (getId (ss ! j))"
    "\<forall>k<length ss. getLoad p (ss ! j) \<le> getLoad p (ss ! k)"
    "\<forall>k<j. getLoad p (ss ! j) < getLoad p (ss ! k)" by blast
  have "ids_are_positions ss \<longrightarrow> updateCurrentServer p ss = Some (int j)"
    using j(1,2) ids_position [of ss j] by simp
  then show "\<exists>j<length ss. updateCurrentServer p ss = Some (getId (ss ! j))
            \<and> (\<forall>k<length ss. getLoad p (ss ! j) \<le> getLoad p (ss ! k))
            \<and> (\<forall>k<j. getLoad p (ss ! j) < getLoad p (ss ! k))
            \<and> (ids_are_positions ss \<longrightarrow> updateCurrentServer p ss = Some (int j))"
    using j by blast
next
  show "updateCurrentServer p (map (\<lambda>s. s\<lparr>capability := f s\<rparr>) ss) = updateCurrentServer p ss"
    by (rule updateCurrentServer_capability)
next
  show "\<forall>t c ss' c'. WeightedRoundRobin_step p t (ss, c) = Some (ss', c')
             \<longrightarrow> updateCurrentServer p ss' = Some c'"
    by (simp add: WeightedRoundRobin_step_Some)
next
  show "\<forall>t c. 0 \<le> c \<and> c < int (length ss) \<and> accepts p t \<longrightarrow>
             (\<exists>s' j. addLoad p t (ss ! nat c) = Some s' \<and> j < length ss
                 \<and> WeightedRoundRobin_step p t (ss, c)
                     = Some (ss[nat c := s'], getId (ss[nat c := s'] ! j))
                 \<and> (\<forall>k<length ss. getLoad p (ss[nat c := s'] ! j) \<le> getLoad p (ss[nat c := s'] ! k))
                 \<and> (\<forall>k<j. getLoad p (ss[nat c := s'] ! j) < getLoad p (ss[nat c := s'] ! k)))"
  proof (intro allI impI)
    fix t c assume a: "0 \<le> c \<and> c < int (length ss) \<and> accepts p t"
    then obtain s' where s': "addLoad p t (ss ! nat c) = Some s'"
      using addLoad_total [of p t "ss ! nat c"] by blast
    let ?ss' = "ss[nat c := s']"
    have al: "addLoad_at p ss c t = Some ?ss'" using a s' by (simp add: addLoad_at_Some)
    have "?ss' \<noteq> []" using assms by simp
    from updateCurrentServer_first_minimum [OF this, of p]
    obtain j where j: "j < length ?ss'" "updateCurrentServer p ?ss' = Some (getId (?ss' ! j))"
      "\<forall>k<length ?ss'. getLoad p (?ss' ! j) \<le> getLoad p (?ss' ! k)"
      "\<forall>k<j. getLoad p (?ss' ! j) < getLoad p (?ss' ! k)" by blast
    have "WeightedRoundRobin_step p t (ss, c) = Some (?ss', getId (?ss' ! j))"
      using al j(2) by (simp add: WeightedRoundRobin_step_Some)
    then show "\<exists>s' j. addLoad p t (ss ! nat c) = Some s' \<and> j < length ss
                 \<and> WeightedRoundRobin_step p t (ss, c)
                     = Some (ss[nat c := s'], getId (ss[nat c := s'] ! j))
                 \<and> (\<forall>k<length ss. getLoad p (ss[nat c := s'] ! j) \<le> getLoad p (ss[nat c := s'] ! k))
                 \<and> (\<forall>k<j. getLoad p (ss[nat c := s'] ! j) < getLoad p (ss[nat c := s'] ! k))"
      using s' j by (intro exI [of _ s'] exI [of _ j]) simp
  qed
next
  show "\<forall>t c s'. 0 \<le> c \<and> c < int (length ss) \<and> addLoad_double p t (ss ! nat c) = Some s' \<longrightarrow>
             (\<exists>j<length ss. WeightedRoundRobin_step_double p t (ss, c)
                     = Some (ss[nat c := s'], getId (ss[nat c := s'] ! j))
                 \<and> (\<forall>k<length ss. getLoad p (ss[nat c := s'] ! j) \<le> getLoad p (ss[nat c := s'] ! k))
                 \<and> (\<forall>k<j. getLoad p (ss[nat c := s'] ! j) < getLoad p (ss[nat c := s'] ! k)))"
  proof (intro allI impI)
    fix t c s'
    assume a: "0 \<le> c \<and> c < int (length ss) \<and> addLoad_double p t (ss ! nat c) = Some s'"
    let ?ss' = "ss[nat c := s']"
    have al: "addLoad_at_double p ss c t = Some ?ss'"
      using a by (simp add: addLoad_at_double_def at_index_def)
    have "?ss' \<noteq> []" using assms by simp
    from updateCurrentServer_first_minimum [OF this, of p]
    obtain j where j: "j < length ?ss'" "updateCurrentServer p ?ss' = Some (getId (?ss' ! j))"
      "\<forall>k<length ?ss'. getLoad p (?ss' ! j) \<le> getLoad p (?ss' ! k)"
      "\<forall>k<j. getLoad p (?ss' ! j) < getLoad p (?ss' ! k)" by blast
    have "WeightedRoundRobin_step_double p t (ss, c) = Some (?ss', getId (?ss' ! j))"
      using al j(2) by (simp add: WeightedRoundRobin_step_double_def)
    then show "\<exists>j<length ss. WeightedRoundRobin_step_double p t (ss, c)
                     = Some (ss[nat c := s'], getId (ss[nat c := s'] ! j))
                 \<and> (\<forall>k<length ss. getLoad p (ss[nat c := s'] ! j) \<le> getLoad p (ss[nat c := s'] ! k))
                 \<and> (\<forall>k<j. getLoad p (ss[nat c := s'] ! j) < getLoad p (ss[nat c := s'] ! k))"
      using j by (intro exI [of _ j]) simp
  qed
next
  show "ids_are_positions ss \<and> list_all (accepts p) taskLoads \<longrightarrow>
             (\<forall>n. \<exists>ss' c'. WeightedRoundRobin_balanceLoad p (ss, 0) (take n taskLoads) = Some (ss', c')
                 \<and> length ss' = length ss
                 \<and> (take n taskLoads \<noteq> [] \<longrightarrow> updateCurrentServer p ss' = Some c'))"
  proof (intro impI allI)
    fix n assume a: "ids_are_positions ss \<and> list_all (accepts p) taskLoads"
    have acc: "list_all (accepts p) (take n taskLoads)"
      using a by (auto simp: list_all_iff dest: in_set_takeD)
    have pos: "0 < int (length ss)" using assms by simp
    obtain st where st: "WeightedRoundRobin_balanceLoad p (ss, 0) (take n taskLoads) = Some st"
      using WeightedRoundRobin_total [OF _ _ pos acc] a by auto
    obtain ss' c' where sc: "st = (ss', c')" by (cases st)
    have "length ss' = length ss" using WeightedRoundRobin_length [OF st] sc by simp
    moreover have "take n taskLoads \<noteq> [] \<longrightarrow> updateCurrentServer p ss' = Some c'"
      using WeightedRoundRobin_last_cursor [OF st [unfolded sc]] by blast
    ultimately show "\<exists>ss' c'. WeightedRoundRobin_balanceLoad p (ss, 0) (take n taskLoads) = Some (ss', c')
                 \<and> length ss' = length ss
                 \<and> (take n taskLoads \<noteq> [] \<longrightarrow> updateCurrentServer p ss' = Some c')"
      using st sc by blast
  qed
qed

theorem updateCurrentServer_least_loaded_witness:
  "[(Server_cap 0 7)\<lparr>load := 2\<rparr>, (Server_cap 1 3)\<lparr>load := 1\<rparr>, (Server_cap 2 9)\<lparr>load := 1\<rparr>] \<noteq> []
   \<and> (\<exists>j<length [(Server_cap 0 7)\<lparr>load := 2\<rparr>, (Server_cap 1 3)\<lparr>load := 1\<rparr>, (Server_cap 2 9)\<lparr>load := 1\<rparr>].
         updateCurrentServer Simulated [(Server_cap 0 7)\<lparr>load := 2\<rparr>, (Server_cap 1 3)\<lparr>load := 1\<rparr>, (Server_cap 2 9)\<lparr>load := 1\<rparr>]
           = Some (getId ([(Server_cap 0 7)\<lparr>load := 2\<rparr>, (Server_cap 1 3)\<lparr>load := 1\<rparr>, (Server_cap 2 9)\<lparr>load := 1\<rparr>] ! j))
         \<and> (\<forall>k<j. getLoad Simulated ([(Server_cap 0 7)\<lparr>load := 2\<rparr>, (Server_cap 1 3)\<lparr>load := 1\<rparr>, (Server_cap 2 9)\<lparr>load := 1\<rparr>] ! j)
                   < getLoad Simulated ([(Server_cap 0 7)\<lparr>load := 2\<rparr>, (Server_cap 1 3)\<lparr>load := 1\<rparr>, (Server_cap 2 9)\<lparr>load := 1\<rparr>] ! k)))
   \<and> updateCurrentServer Simulated [(Server_cap 0 7)\<lparr>load := 2\<rparr>, (Server_cap 1 3)\<lparr>load := 1\<rparr>, (Server_cap 2 9)\<lparr>load := 1\<rparr>] = Some 1
   \<and> (0::int) \<le> 1
   \<and> 1 < int (length [(Server_cap 0 7)\<lparr>load := 2\<rparr>, (Server_cap 1 3)\<lparr>load := 1\<rparr>, (Server_cap 2 9)\<lparr>load := 1\<rparr>])
   \<and> accepts Simulated 5
   \<and> WeightedRoundRobin_step Simulated 5
        ([(Server_cap 0 7)\<lparr>load := 2\<rparr>, (Server_cap 1 3)\<lparr>load := 1\<rparr>, (Server_cap 2 9)\<lparr>load := 1\<rparr>], 1)
       = Some ([(Server_cap 0 7)\<lparr>load := 2\<rparr>, (Server_cap 1 3)\<lparr>load := 6\<rparr>, (Server_cap 2 9)\<lparr>load := 1\<rparr>], 2)
   \<and> updateCurrentServer Simulated
        [(Server_cap 0 7)\<lparr>load := 2\<rparr>, (Server_cap 1 3)\<lparr>load := 6\<rparr>, (Server_cap 2 9)\<lparr>load := 1\<rparr>] = Some 2
   \<and> (\<exists>s' j. addLoad Simulated 5 ([(Server_cap 0 7)\<lparr>load := 2\<rparr>, (Server_cap 1 3)\<lparr>load := 1\<rparr>, (Server_cap 2 9)\<lparr>load := 1\<rparr>] ! nat 1) = Some s'
          \<and> WeightedRoundRobin_step Simulated 5
               ([(Server_cap 0 7)\<lparr>load := 2\<rparr>, (Server_cap 1 3)\<lparr>load := 1\<rparr>, (Server_cap 2 9)\<lparr>load := 1\<rparr>], 1)
              = Some ([(Server_cap 0 7)\<lparr>load := 2\<rparr>, (Server_cap 1 3)\<lparr>load := 1\<rparr>, (Server_cap 2 9)\<lparr>load := 1\<rparr>][nat 1 := s'],
                      getId ([(Server_cap 0 7)\<lparr>load := 2\<rparr>, (Server_cap 1 3)\<lparr>load := 1\<rparr>, (Server_cap 2 9)\<lparr>load := 1\<rparr>][nat 1 := s'] ! j)))
   \<and> addLoad_double Simulated 5 ([(Server_cap 0 7)\<lparr>load := 2\<rparr>, (Server_cap 1 3)\<lparr>load := 1\<rparr>, (Server_cap 2 9)\<lparr>load := 1\<rparr>] ! nat 1)
       = Some ((Server_cap 1 3)\<lparr>load := 6\<rparr>)
   \<and> WeightedRoundRobin_step_double Simulated 5
        ([(Server_cap 0 7)\<lparr>load := 2\<rparr>, (Server_cap 1 3)\<lparr>load := 1\<rparr>, (Server_cap 2 9)\<lparr>load := 1\<rparr>], 1)
       = Some ([(Server_cap 0 7)\<lparr>load := 2\<rparr>, (Server_cap 1 3)\<lparr>load := 6\<rparr>, (Server_cap 2 9)\<lparr>load := 1\<rparr>], 2)
   \<and> (\<exists>j<length [(Server_cap 0 7)\<lparr>load := 2\<rparr>, (Server_cap 1 3)\<lparr>load := 1\<rparr>, (Server_cap 2 9)\<lparr>load := 1\<rparr>].
         WeightedRoundRobin_step_double Simulated 5
           ([(Server_cap 0 7)\<lparr>load := 2\<rparr>, (Server_cap 1 3)\<lparr>load := 1\<rparr>, (Server_cap 2 9)\<lparr>load := 1\<rparr>], 1)
          = Some ([(Server_cap 0 7)\<lparr>load := 2\<rparr>, (Server_cap 1 3)\<lparr>load := 1\<rparr>, (Server_cap 2 9)\<lparr>load := 1\<rparr>][nat 1 := (Server_cap 1 3)\<lparr>load := 6\<rparr>],
                  getId ([(Server_cap 0 7)\<lparr>load := 2\<rparr>, (Server_cap 1 3)\<lparr>load := 1\<rparr>, (Server_cap 2 9)\<lparr>load := 1\<rparr>][nat 1 := (Server_cap 1 3)\<lparr>load := 6\<rparr>] ! j)))
   \<and> ids_are_positions [(Server_cap 0 7)\<lparr>load := 2\<rparr>, (Server_cap 1 3)\<lparr>load := 1\<rparr>, (Server_cap 2 9)\<lparr>load := 1\<rparr>]
   \<and> list_all (accepts Simulated) [5, 1]
   \<and> WeightedRoundRobin_balanceLoad Simulated
        ([(Server_cap 0 7)\<lparr>load := 2\<rparr>, (Server_cap 1 3)\<lparr>load := 1\<rparr>, (Server_cap 2 9)\<lparr>load := 1\<rparr>], 0) [5, 1]
       = Some ([(Server_cap 0 7)\<lparr>load := 7\<rparr>, (Server_cap 1 3)\<lparr>load := 2\<rparr>, (Server_cap 2 9)\<lparr>load := 1\<rparr>], 2)
   \<and> (\<exists>ss' c'. WeightedRoundRobin_balanceLoad Simulated
          ([(Server_cap 0 7)\<lparr>load := 2\<rparr>, (Server_cap 1 3)\<lparr>load := 1\<rparr>, (Server_cap 2 9)\<lparr>load := 1\<rparr>], 0) (take 2 [5, 1])
         = Some (ss', c')
         \<and> length ss' = length [(Server_cap 0 7)\<lparr>load := 2\<rparr>, (Server_cap 1 3)\<lparr>load := 1\<rparr>, (Server_cap 2 9)\<lparr>load := 1\<rparr>]
         \<and> updateCurrentServer Simulated ss' = Some c')"
proof -
  let ?ss = "[(Server_cap 0 7)\<lparr>load := 2\<rparr>, (Server_cap 1 3)\<lparr>load := 1\<rparr>, (Server_cap 2 9)\<lparr>load := 1\<rparr>]"
  let ?ss' = "[(Server_cap 0 7)\<lparr>load := 2\<rparr>, (Server_cap 1 3)\<lparr>load := 6\<rparr>, (Server_cap 2 9)\<lparr>load := 1\<rparr>]"
  let ?ss2 = "[(Server_cap 0 7)\<lparr>load := 7\<rparr>, (Server_cap 1 3)\<lparr>load := 2\<rparr>, (Server_cap 2 9)\<lparr>load := 1\<rparr>]"
  let ?s' = "(Server_cap 1 3)\<lparr>load := 6\<rparr>"
  have h: "?ss \<noteq> []" by simp
  have v: "updateCurrentServer Simulated ?ss = Some 1"
    by (simp add: updateCurrentServer_def getLoad_def getId_def Server_cap_def)
  have c: "(0::int) \<le> 1 \<and> 1 < int (length ?ss) \<and> accepts Simulated 5"
    by (simp add: accepts_def)
  have s: "WeightedRoundRobin_step Simulated 5 (?ss, 1) = Some (?ss', 2)"
    by (simp add: WeightedRoundRobin_step_def addLoad_at_def at_index_def addLoad_def
        updateCurrentServer_def getLoad_def getId_def Server_cap_def)
  have six: "double_round 6 = Some 6" using double_round_of_int [of 6] by simp
  have d: "addLoad_double Simulated 5 (?ss ! nat 1) = Some ?s'"
    by (simp add: addLoad_double_def double_add_def six Server_cap_def)
  have sd: "WeightedRoundRobin_step_double Simulated 5 (?ss, 1) = Some (?ss', 2)"
    by (simp add: WeightedRoundRobin_step_double_def addLoad_at_double_def at_index_def
        addLoad_double_def double_add_def six
        updateCurrentServer_def getLoad_def getId_def Server_cap_def)
  have i: "ids_are_positions ?ss \<and> list_all (accepts Simulated) [5, 1]"
    by (simp add: ids_are_positions_def getId_def Server_cap_def accepts_def)
  have r: "WeightedRoundRobin_balanceLoad Simulated (?ss, 0) [5, 1] = Some (?ss2, 2)"
    by (simp add: WeightedRoundRobin_balanceLoad_def WeightedRoundRobin_step_def addLoad_at_def
        at_index_def addLoad_def updateCurrentServer_def getLoad_def getId_def Server_cap_def)
  note t = updateCurrentServer_least_loaded [OF h, of Simulated capability "[5, 1]"]
  from t have "\<exists>j<length ?ss. updateCurrentServer Simulated ?ss = Some (getId (?ss ! j))
         \<and> (\<forall>k<j. getLoad Simulated (?ss ! j) < getLoad Simulated (?ss ! k))"
    by blast
  moreover from t s have "updateCurrentServer Simulated ?ss' = Some 2" by blast
  moreover from t c have "\<exists>s' j. addLoad Simulated 5 (?ss ! nat 1) = Some s'
          \<and> WeightedRoundRobin_step Simulated 5 (?ss, 1)
              = Some (?ss[nat 1 := s'], getId (?ss[nat 1 := s'] ! j))"
    by blast
  moreover from t c d have "\<exists>j<length ?ss. WeightedRoundRobin_step_double Simulated 5 (?ss, 1)
          = Some (?ss[nat 1 := ?s'], getId (?ss[nat 1 := ?s'] ! j))"
    by blast
  moreover from t i have "\<forall>n. \<exists>ss' c'. WeightedRoundRobin_balanceLoad Simulated (?ss, 0) (take n [5, 1]) = Some (ss', c')
         \<and> length ss' = length ?ss
         \<and> (take n [5, 1 :: real] \<noteq> [] \<longrightarrow> updateCurrentServer Simulated ss' = Some c')"
    by blast
  then have "\<exists>ss' c'. WeightedRoundRobin_balanceLoad Simulated (?ss, 0) (take 2 [5, 1]) = Some (ss', c')
         \<and> length ss' = length ?ss
         \<and> (take 2 [5, 1 :: real] \<noteq> [] \<longrightarrow> updateCurrentServer Simulated ss' = Some c')"
    by (rule spec)
  then have "\<exists>ss' c'. WeightedRoundRobin_balanceLoad Simulated (?ss, 0) (take 2 [5, 1]) = Some (ss', c')
         \<and> length ss' = length ?ss
         \<and> updateCurrentServer Simulated ss' = Some c'"
    by simp
  ultimately show ?thesis using h v c s d sd i r by blast
qed

text \<open>
  C10 (amended). On a pool whose ids are the positions, as the \<open>LoadBalancer\<close> builds it, and whose
  loads are all zero, the
  Weighted-Round-Robin policy (cursor at 0) and the Active-Clustering policy leave the same
  servers after every prefix of every task sequence, so every task goes to the same server;
  the cursor that Weighted-Round-Robin holds after a task is the index that the scan of
  Active-Clustering finds before the next one; and on a non-empty pool both return.
\<close>

theorem WeightedRoundRobin_is_ActiveClustering:
  assumes "ids_are_positions pool" and "list_all (\<lambda>s. getLoad p s = 0) pool"
  shows "(\<forall>n. map_option fst (WeightedRoundRobin_balanceLoad p (pool, 0) (take n taskLoads))
               = ActiveClustering_balanceLoad p pool (take n taskLoads))
       \<and> balanceLoad p WeightedRoundRobin rs pool taskLoads = balanceLoad p ActiveClustering rs pool taskLoads
       \<and> (\<forall>n ss' c. pool \<noteq> [] \<and> WeightedRoundRobin_balanceLoad p (pool, 0) (take n taskLoads) = Some (ss', c)
             \<longrightarrow> minLoadServer p ss' = Some c)
       \<and> (pool \<noteq> [] \<and> list_all (accepts p) taskLoads
             \<longrightarrow> (\<exists>ss'. ActiveClustering_balanceLoad p pool taskLoads = Some ss'))"
proof -
  have eq: "map_option fst (WeightedRoundRobin_balanceLoad p (pool, 0) ts) = ActiveClustering_balanceLoad p pool ts"
    and cur: "pool \<noteq> [] \<Longrightarrow> WeightedRoundRobin_balanceLoad p (pool, 0) ts = Some (ss', c) \<Longrightarrow> minLoadServer p ss' = Some c"
    for ts ss' c
  proof -
    show "map_option fst (WeightedRoundRobin_balanceLoad p (pool, 0) ts) = ActiveClustering_balanceLoad p pool ts"
    proof (cases "pool = []")
      case True
      then show ?thesis
        by (cases ts)
          (simp_all add: WeightedRoundRobin_balanceLoad_def ActiveClustering_balanceLoad_def
            WeightedRoundRobin_step_def ActiveClustering_step_def minLoadServer_def addLoad_at_def at_index_def)
    next
      case False
      have "updateCurrentServer p pool = Some 0"
        using updateCurrentServer_equal_loads [OF False assms(2)] ids_position [OF assms(1), of 0] False by simp
      then show ?thesis using WeightedRoundRobin_ActiveClustering by blast
    qed
  next
    assume ne: "pool \<noteq> []" and r: "WeightedRoundRobin_balanceLoad p (pool, 0) ts = Some (ss', c)"
    have "updateCurrentServer p pool = Some 0"
      using updateCurrentServer_equal_loads [OF ne assms(2)] ids_position [OF assms(1), of 0] ne by simp
    then show "minLoadServer p ss' = Some c" using WeightedRoundRobin_ActiveClustering r by blast
  qed
  show ?thesis
  proof (intro conjI allI impI)
    fix n show "map_option fst (WeightedRoundRobin_balanceLoad p (pool, 0) (take n taskLoads))
               = ActiveClustering_balanceLoad p pool (take n taskLoads)" by (rule eq)
  next
    show "balanceLoad p WeightedRoundRobin rs pool taskLoads = balanceLoad p ActiveClustering rs pool taskLoads"
      by (simp add: balanceLoad_def eq)
  next
    fix n ss' c
    assume "pool \<noteq> [] \<and> WeightedRoundRobin_balanceLoad p (pool, 0) (take n taskLoads) = Some (ss', c)"
    then show "minLoadServer p ss' = Some c" using cur by blast
  next
    assume "pool \<noteq> [] \<and> list_all (accepts p) taskLoads"
    then show "\<exists>ss'. ActiveClustering_balanceLoad p pool taskLoads = Some ss'"
      using ActiveClustering_total [OF _ assms(1)] by blast
  qed
qed


text \<open>
  C10 as stated fails on a pool whose ids are not the positions: on the two servers with the
  ids 1 and 0, both with load zero, and one task of weight 3, Weighted-Round-Robin starts at
  position 0 and Active-Clustering at the id of the first server, which is position 1.
\<close>

theorem WeightedRoundRobin_ids_counterexample:
  "list_all (\<lambda>s. getLoad Plain s = 0) [Server_plain 1, Server_plain 0]
   \<and> map_option (map load \<circ> fst)
        (WeightedRoundRobin_balanceLoad Plain ([Server_plain 1, Server_plain 0], 0) [3]) = Some [3, 0]
   \<and> map_option (map load)
        (ActiveClustering_balanceLoad Plain [Server_plain 1, Server_plain 0] [3]) = Some [0, 3]
   \<and> balanceLoad Plain WeightedRoundRobin \<lparr>ints = \<lambda>k. 0, units = \<lambda>k. 0\<rparr> [Server_plain 1, Server_plain 0] [3]
       \<noteq> balanceLoad Plain ActiveClustering \<lparr>ints = \<lambda>k. 0, units = \<lambda>k. 0\<rparr> [Server_plain 1, Server_plain 0] [3]"
  by (simp add: policies_eval)


theorem WeightedRoundRobin_is_ActiveClustering_witness:
  "ids_are_positions (servers (LoadBalancer_plain 3))
   \<and> list_all (\<lambda>s. getLoad Plain s = 0) (servers (LoadBalancer_plain 3))
   \<and> map_option fst (WeightedRoundRobin_balanceLoad Plain (servers (LoadBalancer_plain 3), 0) (take 4 [5, 1, 1, 2]))
       = ActiveClustering_balanceLoad Plain (servers (LoadBalancer_plain 3)) (take 4 [5, 1, 1, 2])
   \<and> map_option (map (getLoad Plain))
        (ActiveClustering_balanceLoad Plain (servers (LoadBalancer_plain 3)) [5, 1, 1, 2]) = Some [5, 3, 1]"
proof -
  have h1: "ids_are_positions (servers (LoadBalancer_plain 3))" by (rule ids_LoadBalancer_plain)
  have h2: "list_all (\<lambda>s. getLoad Plain s = 0) (servers (LoadBalancer_plain 3))"
    by (rule fresh_LoadBalancer_plain)
  have v: "map_option (map (getLoad Plain))
        (ActiveClustering_balanceLoad Plain (servers (LoadBalancer_plain 3)) [5, 1, 1, 2]) = Some [5, 3, 1]"
    by (simp add: policies_eval)
  from WeightedRoundRobin_is_ActiveClustering [OF h1 h2, of "[5, 1, 1, 2]"]
  have "map_option fst (WeightedRoundRobin_balanceLoad Plain (servers (LoadBalancer_plain 3), 0) (take 4 [5, 1, 1, 2]))
       = ActiveClustering_balanceLoad Plain (servers (LoadBalancer_plain 3)) (take 4 [5, 1, 1, 2])"
    by blast
  then show ?thesis using h1 h2 v by blast
qed

subsection \<open>The pheromone matrix\<close>

lemma list_all_update: "list_all P xs \<Longrightarrow> P v \<Longrightarrow> list_all P (xs[i := v])"
  by (induction xs arbitrary: i) (auto split: nat.splits)

lemma update_entry_Some:
  "update_entry m t s f = Some m' \<longleftrightarrow>
     t < length m \<and> s < length (m ! t) \<and> m' = m[t := (m ! t)[s := f (m ! t ! s)]]"
  by (auto simp: update_entry_def)

lemma update_entry_positive:
  assumes "update_entry m t s f = Some m'" "positive_entries m" "\<And>x. 0 < x \<Longrightarrow> 0 < f x"
  shows "positive_entries m'"
proof -
  from assms(1) have t: "t < length m" and s: "s < length (m ! t)"
    and m': "m' = m[t := (m ! t)[s := f (m ! t ! s)]]"
    by (auto simp: update_entry_Some)
  have row: "list_all (\<lambda>x. 0 < x) (m ! t)"
    using assms(2) t by (simp add: positive_entries_def list_all_length)
  then have "0 < m ! t ! s" using s by (simp add: list_all_length)
  then have "0 < f (m ! t ! s)" by (rule assms(3))
  then have "list_all (\<lambda>x. 0 < x) ((m ! t)[s := f (m ! t ! s)])"
    by (rule list_all_update [OF row])
  then show ?thesis unfolding m' positive_entries_def
    by (rule list_all_update [OF assms(2) [unfolded positive_entries_def]])
qed

lemma update_entry_shape:
  assumes "update_entry m t s f = Some m'"
  shows "length m' = length m \<and> (list_all (\<lambda>row. length row = n) m \<longrightarrow> list_all (\<lambda>row. length row = n) m')"
proof -
  from assms have t: "t < length m" and m': "m' = m[t := (m ! t)[s := f (m ! t ! s)]]"
    by (auto simp: update_entry_Some)
  show ?thesis unfolding m'
    using t by (auto simp: list_all_length nth_list_update)
qed

lemma update_entry_ok:
  assumes "matrix_ok nT nS m" "t < nT" "s < nS" "\<And>x. 0 < x \<Longrightarrow> 0 < f x"
  shows "\<exists>m'. update_entry m t s f = Some m' \<and> matrix_ok nT nS m'"
proof -
  have "t < length m" "s < length (m ! t)"
    using assms(1,2,3) by (auto simp: matrix_ok_def list_all_length)
  then obtain m' where m': "update_entry m t s f = Some m'"
    by (auto simp: update_entry_def)
  then show ?thesis
    using update_entry_positive [OF m' _ assms(4)] update_entry_shape [OF m', of nS] assms(1)
    by (auto simp: matrix_ok_def)
qed

lemma initial_pheromones_ok: "matrix_ok nT nS (initial_pheromones nT nS)"
  by (simp add: matrix_ok_def initial_pheromones_def positive_entries_def list_all_iff)

lemma evaporate_entry_positive:
  "evaporate_entry (1/2) t s m = Some m' \<Longrightarrow> positive_entries m \<Longrightarrow> positive_entries m'"
  unfolding evaporate_entry_def by (erule update_entry_positive) auto

lemma deposit_entry_positive:
  assumes "deposit_entry p ss taskLoads 1 t s m = Some m'" "positive_entries m"
    "loads_nonnegative p ss" "list_all (\<lambda>w. 0 < w) taskLoads"
  shows "positive_entries m'"
proof -
  from assms(1) obtain server w d where
    sv: "at_index ss (int s) = Some server" and w: "at_index taskLoads (int t) = Some w"
    and d: "double_div 1 (getLoad p server + w) = Some d"
    and u: "update_entry m t s (\<lambda>x. x + d) = Some m'"
    by (auto simp: deposit_entry_def bind_eq_Some_conv)
  have "0 \<le> getLoad p server" using sv assms(3)
    by (auto simp: at_index_nat loads_nonnegative_def list_all_length split: if_splits)
  moreover have "0 < w" using w assms(4)
    by (auto simp: at_index_nat list_all_length split: if_splits)
  ultimately have "0 < d" using d by (auto simp: double_div_def split: if_splits)
  then show ?thesis using update_entry_positive [OF u assms(2)] by simp
qed

lemma updatePheromones_positive:
  assumes "updatePheromones p ss m taskLoads (1/2) 1 = Some m'" "positive_entries m"
    "loads_nonnegative p ss" "list_all (\<lambda>w. 0 < w) taskLoads"
  shows "positive_entries m'"
proof -
  from assms(1) obtain e where
    e: "foldM (\<lambda>taskId. foldM (evaporate_entry (1/2) taskId) [0..<length ss]) [0..<length taskLoads] m = Some e"
    and d: "foldM (\<lambda>taskId. foldM (deposit_entry p ss taskLoads 1 taskId) [0..<length ss]) [0..<length taskLoads] e = Some m'"
    by (auto simp: updatePheromones_def Let_def bind_eq_Some_conv)
  have ev: "positive_entries a \<Longrightarrow> foldM (evaporate_entry (1/2) t) [0..<length ss] a = Some a' \<Longrightarrow> positive_entries a'"
    for t a a'
    by (rule foldM_preserves [where I = positive_entries and f = "evaporate_entry (1/2) t"])
      (rule evaporate_entry_positive)
  have dp: "positive_entries a \<Longrightarrow> foldM (deposit_entry p ss taskLoads 1 t) [0..<length ss] a = Some a' \<Longrightarrow> positive_entries a'"
    for t a a'
    by (rule foldM_preserves [where I = positive_entries and f = "deposit_entry p ss taskLoads 1 t"])
      (rule deposit_entry_positive [OF _ _ assms(3,4)])
  have pe: "positive_entries e"
    by (rule foldM_preserves [where I = positive_entries, OF ev assms(2) e])
  show ?thesis
    by (rule foldM_preserves [where I = positive_entries, OF dp pe d])
qed

lemma updatePheromones_ok:
  assumes "matrix_ok (length taskLoads) (length ss) m"
    "loads_nonnegative p ss" "list_all (\<lambda>w. 0 < w) taskLoads"
  shows "\<exists>m'. updatePheromones p ss m taskLoads (1/2) 1 = Some m' \<and> matrix_ok (length taskLoads) (length ss) m'"
proof -
  let ?I = "matrix_ok (length taskLoads) (length ss)"
  have "\<exists>e. foldM (\<lambda>taskId. foldM (evaporate_entry (1/2) taskId) [0..<length ss]) [0..<length taskLoads] m = Some e \<and> ?I e"
  proof (rule foldM_total [where I = ?I, OF assms(1)])
    fix t a assume t: "t \<in> set [0..<length taskLoads]" and a: "?I a"
    show "\<exists>a'. foldM (evaporate_entry (1/2) t) [0..<length ss] a = Some a' \<and> ?I a'"
    proof (rule foldM_total [where I = ?I, OF a])
      fix s b assume "s \<in> set [0..<length ss]" "?I b"
      then show "\<exists>b'. evaporate_entry (1/2) t s b = Some b' \<and> ?I b'"
        using t unfolding evaporate_entry_def by (intro update_entry_ok) auto
    qed
  qed
  then obtain e where
    e: "foldM (\<lambda>taskId. foldM (evaporate_entry (1/2) taskId) [0..<length ss]) [0..<length taskLoads] m = Some e"
    and Ie: "?I e" by blast
  have "\<exists>m'. foldM (\<lambda>taskId. foldM (deposit_entry p ss taskLoads 1 taskId) [0..<length ss]) [0..<length taskLoads] e = Some m' \<and> ?I m'"
  proof (rule foldM_total [where I = ?I, OF Ie])
    fix t a assume t: "t \<in> set [0..<length taskLoads]" and a: "?I a"
    show "\<exists>a'. foldM (deposit_entry p ss taskLoads 1 t) [0..<length ss] a = Some a' \<and> ?I a'"
    proof (rule foldM_total [where I = ?I, OF a])
      fix s b assume s: "s \<in> set [0..<length ss]" and b: "?I b"
      have "0 \<le> getLoad p (ss ! s)" using s assms(2) by (simp add: loads_nonnegative_def list_all_length)
      moreover have "0 < taskLoads ! t" using t assms(3) by (simp add: list_all_length)
      ultimately have pos: "0 < getLoad p (ss ! s) + taskLoads ! t" by simp
      then have dd: "double_div 1 (getLoad p (ss ! s) + taskLoads ! t) = Some (1 / (getLoad p (ss ! s) + taskLoads ! t))"
        by (simp add: double_div_def)
      have "\<exists>b'. update_entry b t s (\<lambda>x. x + 1 / (getLoad p (ss ! s) + taskLoads ! t)) = Some b' \<and> ?I b'"
        using b s t pos by (intro update_entry_ok) (auto intro: add_pos_pos)
      then show "\<exists>b'. deposit_entry p ss taskLoads 1 t s b = Some b' \<and> ?I b'"
        using s t dd by (simp add: deposit_entry_def at_index_nat)
    qed
  qed
  then show ?thesis using e by (simp add: updatePheromones_def)
qed


subsection \<open>Roulette-wheel selection\<close>

lemma mapM_length: "mapM f xs = Some ys \<Longrightarrow> length ys = length xs"
  by (induction xs arbitrary: ys) (auto split: option.splits)

lemma mapM_total:
  "(\<And>x. x \<in> set xs \<Longrightarrow> \<exists>y. f x = Some y \<and> P y) \<Longrightarrow> \<exists>ys. mapM f xs = Some ys \<and> list_all P ys"
proof (induction xs)
  case Nil
  then show ?case by simp
next
  case (Cons x xs)
  obtain y where y: "f x = Some y" "P y" using Cons.prems [of x] by auto
  obtain ys where ys: "mapM f xs = Some ys" "list_all P ys" using Cons.IH Cons.prems by auto
  show ?case using y ys by simp
qed

lemma roulette_Some:
  "roulette qs sel cum k = Some i \<Longrightarrow>
     k \<le> i \<and> i < k + length qs
     \<and> sel \<le> cum + sum_list (take (Suc (i - k)) qs)
     \<and> (\<forall>j<i - k. cum + sum_list (take (Suc j) qs) < sel)"
proof (induction qs arbitrary: cum k)
  case Nil
  then show ?case by simp
next
  case (Cons q qs)
  show ?case
  proof (cases "sel \<le> cum + q")
    case True
    then show ?thesis using Cons.prems by simp
  next
    case False
    then have r: "roulette qs sel (cum + q) (Suc k) = Some i" using Cons.prems by simp
    from Cons.IH [OF r] have ih: "Suc k \<le> i" "i < Suc k + length qs"
      "sel \<le> cum + q + sum_list (take (Suc (i - Suc k)) qs)"
      "\<forall>j<i - Suc k. cum + q + sum_list (take (Suc j) qs) < sel" by auto
    have ik: "i - k = Suc (i - Suc k)" using ih(1) by simp
    have "cum + sum_list (take (Suc j) (q # qs)) < sel" if "j < i - k" for j
    proof (cases j)
      case 0
      then show ?thesis using False by simp
    next
      case (Suc j')
      then have "j' < i - Suc k" using that ik by simp
      then show ?thesis using ih(4) Suc by (simp add: add.assoc)
    qed
    then show ?thesis using ih(1,2,3) by (simp add: ik add.assoc)
  qed
qed

lemma roulette_None:
  "roulette qs sel cum k = None \<Longrightarrow> \<forall>j<length qs. cum + sum_list (take (Suc j) qs) < sel"
proof (induction qs arbitrary: cum k)
  case Nil
  then show ?case by simp
next
  case (Cons q qs)
  from Cons.prems have nq: "\<not> sel \<le> cum + q" and r: "roulette qs sel (cum + q) (Suc k) = None"
    by (auto simp: Let_def split: if_splits)
  show ?case
  proof (intro allI impI)
    fix j assume j: "j < length (q # qs)"
    show "cum + sum_list (take (Suc j) (q # qs)) < sel"
    proof (cases j)
      case 0
      then show ?thesis using nq by simp
    next
      case (Suc j')
      then show ?thesis using Cons.IH [OF r] j by (simp add: add.assoc)
    qed
  qed
qed

lemma roulette_reaches:
  assumes "qs \<noteq> []" "sel \<le> cum + sum_list qs"
  shows "roulette qs sel cum k \<noteq> None"
proof
  assume "roulette qs sel cum k = None"
  from roulette_None [OF this, rule_format, of "length qs - 1"] assms
  show False by simp
qed

lemma selectNextServer_Some:
  "selectNextServer p ss taskId pheromones taskLoads alpha beta u = Some c \<longleftrightarrow>
     (\<exists>probabilities.
        mapM (probability_of p ss pheromones taskLoads alpha beta taskId) [0..<length ss] = Some probabilities
        \<and> 0 \<le> sum_list probabilities
        \<and> c = (case roulette probabilities (sum_list probabilities * u) 0 0 of
                 Some serverId \<Rightarrow> int serverId | None \<Rightarrow> int (length ss) - 1))"
  by (auto simp: selectNextServer_def uniform_real_def Let_def bind_eq_Some_conv)

lemma selectNextServer_in_range:
  assumes "selectNextServer p ss taskId pheromones taskLoads alpha beta u = Some c" "ss \<noteq> []"
  shows "0 \<le> c \<and> c < int (length ss)"
proof -
  from assms(1) obtain probs where
    m: "mapM (probability_of p ss pheromones taskLoads alpha beta taskId) [0..<length ss] = Some probs"
    and c: "c = (case roulette probs (sum_list probs * u) 0 0 of
                   Some serverId \<Rightarrow> int serverId | None \<Rightarrow> int (length ss) - 1)"
    by (auto simp: selectNextServer_Some)
  have len: "length probs = length ss" using mapM_length [OF m] by simp
  show ?thesis
  proof (cases "roulette probs (sum_list probs * u) 0 0")
    case None
    then show ?thesis using c assms(2) by (cases ss) simp_all
  next
    case (Some i)
    then show ?thesis using c roulette_Some [OF Some] len by simp
  qed
qed

lemma probability_of_total:
  assumes "taskId < length taskLoads" "taskId < length pheromones"
    "serverId < length ss" "length ss \<le> length (pheromones ! taskId)"
    "list_all (\<lambda>x. 0 \<le> x) (pheromones ! taskId)"
    "loads_nonnegative p ss" "0 < taskLoads ! taskId"
  shows "\<exists>q. probability_of p ss pheromones taskLoads alpha beta taskId serverId = Some q \<and> 0 \<le> q"
proof -
  have "0 \<le> getLoad p (ss ! serverId)"
    using assms(3,6) by (simp add: loads_nonnegative_def list_all_length)
  then have b: "0 < getLoad p (ss ! serverId) + taskLoads ! taskId"
    using assms(7) by simp
  then have d: "0 < (getLoad p (ss ! serverId) + taskLoads ! taskId) ^ beta"
    by (rule zero_less_power)
  have ph: "0 \<le> pheromones ! taskId ! serverId"
    using assms(3,4,5) by (simp add: list_all_length)
  have "0 \<le> (pheromones ! taskId ! serverId) ^ alpha * (1 / (getLoad p (ss ! serverId) + taskLoads ! taskId) ^ beta)"
    using d ph by (intro mult_nonneg_nonneg) simp_all
  then show ?thesis
    using assms(1-4) b by (simp add: probability_of_def at_index_nat double_div_def)
qed

lemma selectNextServer_total:
  assumes "taskId < length taskLoads" "taskId < length pheromones"
    "length ss \<le> length (pheromones ! taskId)"
    "list_all (\<lambda>x. 0 \<le> x) (pheromones ! taskId)"
    "loads_nonnegative p ss" "0 < taskLoads ! taskId"
  shows "\<exists>c. selectNextServer p ss taskId pheromones taskLoads alpha beta u = Some c"
proof -
  have "\<exists>probs. mapM (probability_of p ss pheromones taskLoads alpha beta taskId) [0..<length ss] = Some probs
          \<and> list_all (\<lambda>q. 0 \<le> q) probs"
    by (rule mapM_total) (use assms in \<open>auto intro!: probability_of_total\<close>)
  then obtain probs where
    m: "mapM (probability_of p ss pheromones taskLoads alpha beta taskId) [0..<length ss] = Some probs"
    and nn: "list_all (\<lambda>q. 0 \<le> q) probs" by blast
  have "0 \<le> sum_list probs" using nn by (intro sum_list_nonneg) (simp add: list_all_iff)
  then show ?thesis using m by (simp add: selectNextServer_Some)
qed

lemma matrix_ok_row:
  "matrix_ok nT nS m \<Longrightarrow> t < nT \<Longrightarrow> t < length m \<and> length (m ! t) = nS \<and> list_all (\<lambda>x. 0 \<le> x) (m ! t)"
  by (auto simp: matrix_ok_def positive_entries_def list_all_length intro: less_imp_le)

lemma load_gain_nonneg: "0 < w \<Longrightarrow> 0 \<le> load_gain p w"
  by (cases p) (simp_all add: load_gain_def)

lemma addLoad_at_nonnegative:
  assumes "addLoad_at p ss i w = Some ss'" "loads_nonnegative p ss" "0 < w"
  shows "loads_nonnegative p ss'"
proof -
  from assms(1) obtain s' where i: "0 \<le> i" "nat i < length ss"
    and s': "addLoad p w (ss ! nat i) = Some s'" and ss': "ss' = ss[nat i := s']"
    by (auto simp: addLoad_at_Some)
  have "0 \<le> getLoad p (ss ! nat i)" using assms(2) i by (simp add: loads_nonnegative_def list_all_length)
  then have "0 \<le> getLoad p s'" using getLoad_addLoad [OF s'] load_gain_nonneg [OF assms(3), of p] by simp
  then show ?thesis using assms(2) unfolding ss' loads_nonnegative_def by (intro list_all_update)
qed

lemma ant_step_Some:
  "ant_step p rs taskLoads m taskId (ss, k) = Some (ss', k') \<longleftrightarrow>
     (\<exists>c w. selectNextServer p ss taskId m taskLoads 1 2 (units rs k) = Some c
            \<and> at_index taskLoads (int taskId) = Some w
            \<and> addLoad_at p ss c w = Some ss' \<and> k' = Suc k)"
  by (auto simp: ant_step_def bind_eq_Some_conv)

lemma ant_step_nonnegative:
  assumes "ant_step p rs taskLoads m taskId st = Some st'" "loads_nonnegative p (fst st)"
    "list_all (\<lambda>w. 0 < w) taskLoads"
  shows "loads_nonnegative p (fst st') \<and> length (fst st') = length (fst st)"
proof -
  obtain ss k ss' k' where st: "st = (ss, k)" "st' = (ss', k')" by (cases st; cases st') auto
  from assms(1) [unfolded st ant_step_Some] obtain c w where
    w: "at_index taskLoads (int taskId) = Some w" and a: "addLoad_at p ss c w = Some ss'" by blast
  have "0 < w" using w assms(3) by (auto simp: at_index_nat list_all_length split: if_splits)
  then show ?thesis
    using addLoad_at_nonnegative [OF a] length_addLoad_at [OF a] assms(2) st by simp
qed

lemma ant_step_total:
  assumes "matrix_ok (length taskLoads) (length ss) m" "ss \<noteq> []" "loads_nonnegative p ss"
    "list_all (\<lambda>w. 0 < w) taskLoads" "list_all (accepts p) taskLoads" "taskId < length taskLoads"
  shows "\<exists>st'. ant_step p rs taskLoads m taskId (ss, k) = Some st'"
proof -
  note row = matrix_ok_row [OF assms(1,6)]
  have w: "0 < taskLoads ! taskId" "accepts p (taskLoads ! taskId)"
    using assms(4,5,6) by (simp_all add: list_all_length)
  obtain c where c: "selectNextServer p ss taskId m taskLoads 1 2 (units rs k) = Some c"
    using selectNextServer_total [OF assms(6) _ _ _ assms(3) w(1), of m 1 2 "units rs k"] row by auto
  note rg = selectNextServer_in_range [OF c assms(2)]
  obtain ss' where "addLoad_at p ss c (taskLoads ! taskId) = Some ss'"
    using addLoad_at_total [of c ss p "taskLoads ! taskId"] rg w(2) by auto
  then show ?thesis using c assms(6) by (simp add: ant_step_def at_index_nat)
qed


subsection \<open>The iterations of the ant-colony policy\<close>

lemma getLoad_resetLoad: "getLoad p (resetLoad p s) = 0"
  by (cases p) (simp_all add: getLoad_def resetLoad_def)

lemma move_ants_nonnegative:
  assumes "move_ants p rs taskLoads m st = Some st'" "loads_nonnegative p (fst st)"
    "list_all (\<lambda>w. 0 < w) taskLoads"
  shows "loads_nonnegative p (fst st') \<and> length (fst st') = length (fst st)"
proof (cases p)
  case Queued
  let ?I = "\<lambda>u :: Server list \<times> nat. loads_nonnegative p (fst u) \<and> length (fst u) = length (fst st)"
  have f: "foldM (ant_step p rs taskLoads m) [0..<length taskLoads] st = Some st'"
    using assms(1) Queued by (simp add: move_ants_def)
  have "?I st'"
  proof (rule foldM_preserves [where I = ?I, OF _ _ f])
    fix x and t t' :: "Server list \<times> nat"
    assume "?I t" "ant_step p rs taskLoads m x t = Some t'"
    then show "?I t'" using ant_step_nonnegative [of p rs taskLoads m x t t'] assms(3) by simp
  next
    show "?I st" using assms(2) by simp
  qed
  then show ?thesis .
next
  case Plain
  then show ?thesis using assms by (simp add: move_ants_def)
next
  case Simulated
  then show ?thesis using assms by (simp add: move_ants_def)
qed

lemma move_ants_total:
  assumes "matrix_ok (length taskLoads) (length ss) m" "ss \<noteq> []" "loads_nonnegative p ss"
    "list_all (\<lambda>w. 0 < w) taskLoads" "list_all (accepts p) taskLoads"
  shows "\<exists>st'. move_ants p rs taskLoads m (ss, k) = Some st'"
proof (cases p)
  case Queued
  let ?I = "\<lambda>u :: Server list \<times> nat. loads_nonnegative p (fst u) \<and> length (fst u) = length ss"
  have "\<exists>st'. foldM (ant_step p rs taskLoads m) [0..<length taskLoads] (ss, k) = Some st' \<and> ?I st'"
  proof (rule foldM_total [where I = ?I])
    show "?I (ss, k)" using assms(3) by simp
  next
    fix x and t :: "Server list \<times> nat"
    assume x: "x \<in> set [0..<length taskLoads]" and I: "?I t"
    obtain ss0 k0 where t: "t = (ss0, k0)" by (cases t)
    have ne: "ss0 \<noteq> []" using I t assms(2) by auto
    have "\<exists>t'. ant_step p rs taskLoads m x (ss0, k0) = Some t'"
      using ant_step_total [of taskLoads ss0 m p x rs k0] assms(1,4,5) I t ne x by simp
    then obtain t' where t': "ant_step p rs taskLoads m x t = Some t'" using t by auto
    then show "\<exists>t'. ant_step p rs taskLoads m x t = Some t' \<and> ?I t'"
      using ant_step_nonnegative [OF t' _ assms(4)] I by simp
  qed
  then show ?thesis using Queued by (auto simp: move_ants_def)
next
  case Plain
  then show ?thesis by (simp add: move_ants_def)
next
  case Simulated
  then show ?thesis by (simp add: move_ants_def)
qed

lemma ACO_iteration_Some:
  "ACO_iteration p rs taskLoads (ss, m, k) = Some (ss', m', k') \<longleftrightarrow>
     (\<exists>ss1. move_ants p rs taskLoads m (ss, k) = Some (ss1, k')
          \<and> updatePheromones p ss1 m taskLoads (1/2) 1 = Some m'
          \<and> ss' = map (resetLoad p) ss1)"
  by (auto simp: ACO_iteration_def bind_eq_Some_conv)

lemma ACO_iteration_resets:
  assumes "ACO_iteration p rs taskLoads st = Some st'"
  shows "list_all (\<lambda>s. getLoad p s = 0) (fst st')"
proof -
  obtain ss m k ss' m' k' where st: "st = (ss, m, k)" "st' = (ss', m', k')"
    by (cases st; cases st') auto
  from assms [unfolded st ACO_iteration_Some] obtain ss1 where "ss' = map (resetLoad p) ss1" by blast
  then show ?thesis using st by (simp add: list_all_iff getLoad_resetLoad)
qed

lemma loads_zero_nonnegative: "list_all (\<lambda>s. getLoad p s = 0) ss \<Longrightarrow> loads_nonnegative p ss"
  by (simp add: loads_nonnegative_def list_all_iff)

lemma ACO_iteration_positive:
  assumes "ACO_iteration p rs taskLoads st = Some st'"
    "loads_nonnegative p (fst st)" "positive_entries (fst (snd st))" "list_all (\<lambda>w. 0 < w) taskLoads"
  shows "loads_nonnegative p (fst st') \<and> positive_entries (fst (snd st')) \<and> length (fst st') = length (fst st)"
proof -
  obtain ss m k ss' m' k' where st: "st = (ss, m, k)" "st' = (ss', m', k')"
    by (cases st; cases st') auto
  from assms(1) [unfolded st ACO_iteration_Some] obtain ss1 where
    mv: "move_ants p rs taskLoads m (ss, k) = Some (ss1, k')"
    and up: "updatePheromones p ss1 m taskLoads (1/2) 1 = Some m'"
    and rs: "ss' = map (resetLoad p) ss1" by blast
  have n1: "loads_nonnegative p ss1" "length ss1 = length ss"
    using move_ants_nonnegative [OF mv _ assms(4)] assms(2) st by simp_all
  have "positive_entries m'"
    using updatePheromones_positive [OF up _ n1(1) assms(4)] assms(3) st by simp
  moreover have "loads_nonnegative p ss'"
    using ACO_iteration_resets [OF assms(1)] st by (simp add: loads_zero_nonnegative)
  ultimately show ?thesis using st rs n1(2) by simp
qed

lemma ACO_iteration_total:
  assumes "ACO_state_ok p (length taskLoads) n st" "0 < n"
    "list_all (\<lambda>w. 0 < w) taskLoads" "list_all (accepts p) taskLoads"
  shows "\<exists>st'. ACO_iteration p rs taskLoads st = Some st' \<and> ACO_state_ok p (length taskLoads) n st'"
proof -
  obtain ss m k where st: "st = (ss, m, k)" by (cases st) auto
  have ok: "length ss = n" "loads_nonnegative p ss" "matrix_ok (length taskLoads) (length ss) m"
    using assms(1) st by (simp_all add: ACO_state_ok_def)
  have ne: "ss \<noteq> []" using ok(1) assms(2) by auto
  obtain ss1 k1 where mv: "move_ants p rs taskLoads m (ss, k) = Some (ss1, k1)"
    using move_ants_total [OF ok(3) ne ok(2) assms(3,4), of rs k] by auto
  have n1: "loads_nonnegative p ss1" "length ss1 = length ss"
    using move_ants_nonnegative [OF mv _ assms(3)] ok(2) by simp_all
  obtain m' where up: "updatePheromones p ss1 m taskLoads (1/2) 1 = Some m'"
    and m': "matrix_ok (length taskLoads) (length ss1) m'"
    using updatePheromones_ok [OF _ n1(1) assms(3), of m] ok(3) n1(2) by auto
  have it: "ACO_iteration p rs taskLoads st = Some (map (resetLoad p) ss1, m', k1)"
    using mv up st by (simp add: ACO_iteration_Some)
  have "loads_nonnegative p (map (resetLoad p) ss1)"
    using ACO_iteration_resets [OF it] by (simp add: loads_zero_nonnegative)
  then have "ACO_state_ok p (length taskLoads) n (map (resetLoad p) ss1, m', k1)"
    using m' n1(2) ok(1) by (simp add: ACO_state_ok_def)
  then show ?thesis using it by blast
qed

lemma ACO_iterations_total:
  assumes "pool \<noteq> []" "loads_nonnegative p pool"
    "list_all (\<lambda>w. 0 < w) taskLoads" "list_all (accepts p) taskLoads"
  shows "\<exists>st. ACO_iterations p n rs pool taskLoads = Some st \<and> ACO_state_ok p (length taskLoads) (length pool) st"
  unfolding ACO_iterations_def
proof (rule foldM_total [where I = "ACO_state_ok p (length taskLoads) (length pool)"])
  show "ACO_state_ok p (length taskLoads) (length pool)
          (pool, initial_pheromones (length taskLoads) (length pool), 0)"
    using assms(2) by (simp add: ACO_state_ok_def initial_pheromones_ok)
next
  fix x t assume "ACO_state_ok p (length taskLoads) (length pool) t"
  then show "\<exists>t'. ACO_iteration p rs taskLoads t = Some t' \<and> ACO_state_ok p (length taskLoads) (length pool) t'"
    using assms(1) by (intro ACO_iteration_total assms(3,4)) simp_all
qed

lemma ACO_iterations_positive:
  assumes "ACO_iterations p n rs pool taskLoads = Some st"
    "loads_nonnegative p pool" "list_all (\<lambda>w. 0 < w) taskLoads"
  shows "positive_entries (fst (snd st)) \<and> length (fst st) = length pool"
proof -
  let ?I = "\<lambda>u :: Server list \<times> real list list \<times> nat.
              loads_nonnegative p (fst u) \<and> positive_entries (fst (snd u)) \<and> length (fst u) = length pool"
  have "?I st"
  proof (rule foldM_preserves [where I = ?I, OF _ _ assms(1) [unfolded ACO_iterations_def]])
    fix x and t t' :: "Server list \<times> real list list \<times> nat"
    assume "?I t" "ACO_iteration p rs taskLoads t = Some t'"
    then show "?I t'" using ACO_iteration_positive [of p rs taskLoads t t'] assms(3) by simp
  next
    show "?I (pool, initial_pheromones (length taskLoads) (length pool), 0)"
      using assms(2) initial_pheromones_ok [of "length taskLoads" "length pool"]
      by (simp add: matrix_ok_def)
  qed
  then show ?thesis by simp
qed

lemma ACO_iterations_Suc:
  "ACO_iterations p (Suc n) rs pool taskLoads =
     (case ACO_iterations p n rs pool taskLoads of None \<Rightarrow> None
      | Some st \<Rightarrow> ACO_iteration p rs taskLoads st)"
  by (simp add: ACO_iterations_def foldM_append split: option.splits)

lemma ACO_iterations_reset:
  assumes "ACO_iterations p n rs pool taskLoads = Some st" "0 < n"
  shows "list_all (\<lambda>s. getLoad p s = 0) (fst st)"
proof -
  obtain n' where n: "n = Suc n'" using assms(2) by (cases n) auto
  from assms(1) obtain st0 where "ACO_iteration p rs taskLoads st0 = Some st"
    unfolding n ACO_iterations_Suc by (auto split: option.splits)
  then show ?thesis by (rule ACO_iteration_resets)
qed



lemma update_entry_value:
  "update_entry m t s f = Some m' \<Longrightarrow> m' ! t ! s = f (m ! t ! s)"
  by (auto simp: update_entry_Some)

lemma deposit_entry_value:
  assumes "deposit_entry p ss taskLoads 1 t s m = Some m'"
    "loads_nonnegative p ss" "list_all (\<lambda>w. 0 < w) taskLoads"
  shows "0 < 1 / (getLoad p (ss ! s) + taskLoads ! t)
         \<and> m' ! t ! s = m ! t ! s + 1 / (getLoad p (ss ! s) + taskLoads ! t)"
proof -
  from assms(1) obtain d where
    s: "s < length ss" and t: "t < length taskLoads"
    and d: "double_div 1 (getLoad p (ss ! s) + taskLoads ! t) = Some d"
    and u: "update_entry m t s (\<lambda>x. x + d) = Some m'"
    by (auto simp: deposit_entry_def bind_eq_Some_conv at_index_nat split: if_splits)
  have "0 \<le> getLoad p (ss ! s)" using s assms(2) by (simp add: loads_nonnegative_def list_all_length)
  moreover have "0 < taskLoads ! t" using t assms(3) by (simp add: list_all_length)
  ultimately have "0 < getLoad p (ss ! s) + taskLoads ! t" by simp
  then show ?thesis using d update_entry_value [OF u] by (auto simp: double_div_def)
qed

text \<open>
  C8. With strictly positive task weights and no negative load in the pool, every entry of
  the pheromone matrix is strictly positive after any number of iterations of the ant-colony
  policy, and at every step in between: the entries start at 1, an evaporation multiplies
  an entry by \<open>1 - rho\<close> with \<open>rho = 1/2\<close>, a deposit adds the strictly positive term
  \<open>Q / (serverLoad + taskWeight)\<close> with \<open>Q = 1\<close>, and both keep the matrix positive. On a
  non-empty pool (and weights that \<open>addLoad\<close> accepts) the iterations return.
\<close>

theorem pheromones_stay_positive:
  assumes "list_all (\<lambda>w. 0 < w) taskLoads" and "loads_nonnegative p pool"
  shows "(\<forall>n st. ACO_iterations p n rs pool taskLoads = Some st \<longrightarrow> positive_entries (fst (snd st)))
       \<and> list_all (list_all (\<lambda>x. x = 1)) (initial_pheromones (length taskLoads) (length pool))
       \<and> (\<forall>m t s m'. positive_entries m \<and> evaporate_entry (1/2) t s m = Some m'
             \<longrightarrow> positive_entries m' \<and> m' ! t ! s = m ! t ! s * (1 - 1/2))
       \<and> (\<forall>ss m t s m'. positive_entries m \<and> loads_nonnegative p ss
               \<and> deposit_entry p ss taskLoads 1 t s m = Some m'
             \<longrightarrow> positive_entries m' \<and> 0 < 1 / (getLoad p (ss ! s) + taskLoads ! t)
                 \<and> m' ! t ! s = m ! t ! s + 1 / (getLoad p (ss ! s) + taskLoads ! t))
       \<and> (\<forall>ss m m'. positive_entries m \<and> loads_nonnegative p ss
               \<and> updatePheromones p ss m taskLoads (1/2) 1 = Some m'
             \<longrightarrow> positive_entries m')
       \<and> (pool \<noteq> [] \<and> list_all (accepts p) taskLoads
             \<longrightarrow> (\<forall>n. \<exists>st. ACO_iterations p n rs pool taskLoads = Some st))"
proof (intro conjI allI impI)
  fix n st assume "ACO_iterations p n rs pool taskLoads = Some st"
  then show "positive_entries (fst (snd st))"
    using ACO_iterations_positive [OF _ assms(2,1)] by blast
next
  show "list_all (list_all (\<lambda>x. x = 1)) (initial_pheromones (length taskLoads) (length pool))"
    by (simp add: initial_pheromones_def list_all_iff)
next
  fix m t s m' assume a: "positive_entries m \<and> evaporate_entry (1/2) t s m = Some m'"
  then show "positive_entries m'" using evaporate_entry_positive by blast
  show "m' ! t ! s = m ! t ! s * (1 - 1/2)"
    using a update_entry_value [of m t s "\<lambda>x. x * (1 - 1/2)" m'] by (simp add: evaporate_entry_def)
next
  fix ss m t s m'
  assume a: "positive_entries m \<and> loads_nonnegative p ss \<and> deposit_entry p ss taskLoads 1 t s m = Some m'"
  then show "positive_entries m'" using deposit_entry_positive [OF _ _ _ assms(1)] by blast
  show "0 < 1 / (getLoad p (ss ! s) + taskLoads ! t)"
    using a deposit_entry_value [OF _ _ assms(1)] by blast
  show "m' ! t ! s = m ! t ! s + 1 / (getLoad p (ss ! s) + taskLoads ! t)"
    using a deposit_entry_value [OF _ _ assms(1)] by blast
next
  fix ss m m'
  assume "positive_entries m \<and> loads_nonnegative p ss \<and> updatePheromones p ss m taskLoads (1/2) 1 = Some m'"
  then show "positive_entries m'" using updatePheromones_positive [OF _ _ _ assms(1)] by blast
next
  fix n assume "pool \<noteq> [] \<and> list_all (accepts p) taskLoads"
  then show "\<exists>st. ACO_iterations p n rs pool taskLoads = Some st"
    using ACO_iterations_total [OF _ assms(2,1), of n rs] by blast
qed

theorem pheromones_stay_positive_witness:
  "list_all (\<lambda>w. 0 < w) [3, 2 :: real] \<and> loads_nonnegative Queued (servers (LoadBalancer_cap [4, 5]))
   \<and> (\<exists>st. ACO_iterations Queued 100 \<lparr>ints = \<lambda>k. 0, units = \<lambda>k. 1/2\<rparr> (servers (LoadBalancer_cap [4, 5])) [3, 2] = Some st
          \<and> positive_entries (fst (snd st)))"
proof -
  have h1: "list_all (\<lambda>w. 0 < w) [3, 2 :: real]" by simp
  have h2: "loads_nonnegative Queued (servers (LoadBalancer_cap [4, 5]))"
    by (simp add: loads_zero_nonnegative fresh_LoadBalancer_cap)
  have h3: "servers (LoadBalancer_cap [4, 5]) \<noteq> [] \<and> list_all (accepts Queued) [3, 2]"
    by (simp add: LoadBalancer_cap_def accepts_def double_to_int_def)
  note t = pheromones_stay_positive [OF h1 h2, of "\<lparr>ints = \<lambda>k. 0, units = \<lambda>k. 1/2\<rparr>"]
  from t h3 obtain st where
    st: "ACO_iterations Queued 100 \<lparr>ints = \<lambda>k. 0, units = \<lambda>k. 1/2\<rparr> (servers (LoadBalancer_cap [4, 5])) [3, 2] = Some st"
    by blast
  with t have "positive_entries (fst (snd st))" by blast
  then show ?thesis using h1 h2 st by blast
qed

text \<open>
  C9. On a non-empty pool every answer of \<open>selectNextServer\<close> is an index in
  \<open>[0, numServers)\<close>: the first server whose cumulative probability reaches the draw
  \<open>totalProbability * u\<close>, or the last server when the loop runs to its end; with exact
  arithmetic and \<open>u\<close> in \<open>[0, 1]\<close> the loop never runs to its end, the last cumulative sum
  being \<open>totalProbability\<close>. The function answers whenever its indices are in range, the
  pheromones of the task are not negative, no load is negative and the weight of the task
  is strictly positive, which is the case at every call that \<open>balanceLoad\<close> makes.
\<close>

theorem selectNextServer_roulette:
  assumes "ss \<noteq> []"
  shows "(\<forall>c. selectNextServer p ss taskId pheromones taskLoads alpha beta u = Some c \<longrightarrow>
            0 \<le> c \<and> c < int (length ss)
            \<and> (\<exists>probabilities.
                  mapM (probability_of p ss pheromones taskLoads alpha beta taskId) [0..<length ss] = Some probabilities
                  \<and> length probabilities = length ss
                  \<and> 0 \<le> sum_list probabilities
                  \<and> (case roulette probabilities (sum_list probabilities * u) 0 0 of
                       Some serverId \<Rightarrow>
                         c = int serverId
                         \<and> sum_list probabilities * u \<le> sum_list (take (Suc serverId) probabilities)
                         \<and> (\<forall>j<serverId. sum_list (take (Suc j) probabilities) < sum_list probabilities * u)
                     | None \<Rightarrow> c = int (length ss) - 1)
                  \<and> (0 \<le> u \<and> u \<le> 1 \<longrightarrow> roulette probabilities (sum_list probabilities * u) 0 0 \<noteq> None)))
       \<and> (taskId < length taskLoads \<and> taskId < length pheromones
            \<and> length ss \<le> length (pheromones ! taskId)
            \<and> list_all (\<lambda>x. 0 \<le> x) (pheromones ! taskId)
            \<and> loads_nonnegative p ss \<and> 0 < taskLoads ! taskId
           \<longrightarrow> (\<exists>c. selectNextServer p ss taskId pheromones taskLoads alpha beta u = Some c))"
proof (intro conjI allI impI)
  fix c assume c: "selectNextServer p ss taskId pheromones taskLoads alpha beta u = Some c"
  show "0 \<le> c" "c < int (length ss)"
    using selectNextServer_in_range [OF c assms] by simp_all
  from c obtain probs where
    m: "mapM (probability_of p ss pheromones taskLoads alpha beta taskId) [0..<length ss] = Some probs"
    and nn: "0 \<le> sum_list probs"
    and cv: "c = (case roulette probs (sum_list probs * u) 0 0 of
                   Some serverId \<Rightarrow> int serverId | None \<Rightarrow> int (length ss) - 1)"
    by (auto simp: selectNextServer_Some)
  have len: "length probs = length ss" using mapM_length [OF m] by simp
  have ne: "probs \<noteq> []" using len assms by auto
  have first: "case roulette probs (sum_list probs * u) 0 0 of
                 Some serverId \<Rightarrow>
                   c = int serverId
                   \<and> sum_list probs * u \<le> sum_list (take (Suc serverId) probs)
                   \<and> (\<forall>j<serverId. sum_list (take (Suc j) probs) < sum_list probs * u)
               | None \<Rightarrow> c = int (length ss) - 1"
  proof (cases "roulette probs (sum_list probs * u) 0 0")
    case None
    then show ?thesis using cv by simp
  next
    case (Some i)
    then show ?thesis using cv roulette_Some [OF Some] by simp
  qed
  have reach: "0 \<le> u \<and> u \<le> 1 \<longrightarrow> roulette probs (sum_list probs * u) 0 0 \<noteq> None"
  proof
    assume "0 \<le> u \<and> u \<le> 1"
    then have "sum_list probs * u \<le> 0 + sum_list probs"
      using nn by (simp add: mult_left_le)
    then show "roulette probs (sum_list probs * u) 0 0 \<noteq> None"
      by (rule roulette_reaches [OF ne])
  qed
  show "\<exists>probabilities.
          mapM (probability_of p ss pheromones taskLoads alpha beta taskId) [0..<length ss] = Some probabilities
          \<and> length probabilities = length ss
          \<and> 0 \<le> sum_list probabilities
          \<and> (case roulette probabilities (sum_list probabilities * u) 0 0 of
               Some serverId \<Rightarrow>
                 c = int serverId
                 \<and> sum_list probabilities * u \<le> sum_list (take (Suc serverId) probabilities)
                 \<and> (\<forall>j<serverId. sum_list (take (Suc j) probabilities) < sum_list probabilities * u)
             | None \<Rightarrow> c = int (length ss) - 1)
          \<and> (0 \<le> u \<and> u \<le> 1 \<longrightarrow> roulette probabilities (sum_list probabilities * u) 0 0 \<noteq> None)"
    using m len nn first reach by blast
next
  assume "taskId < length taskLoads \<and> taskId < length pheromones
            \<and> length ss \<le> length (pheromones ! taskId)
            \<and> list_all (\<lambda>x. 0 \<le> x) (pheromones ! taskId)
            \<and> loads_nonnegative p ss \<and> 0 < taskLoads ! taskId"
  then show "\<exists>c. selectNextServer p ss taskId pheromones taskLoads alpha beta u = Some c"
    using selectNextServer_total by blast
qed

lemmas ACO_eval =
  selectNextServer_def probability_of_def uniform_real_def double_div_def at_index_def
  LoadBalancer_plain_def LoadBalancer_cap_def Server_plain_def Server_cap_def getLoad_def
  upt_conv_Cons

theorem selectNextServer_roulette_witness:
  "servers (LoadBalancer_plain 2) \<noteq> []
   \<and> selectNextServer Plain (servers (LoadBalancer_plain 2)) 0 [[1, 1]] [2] 1 2 (3/4) = Some 1
   \<and> (0::int) \<le> 1 \<and> 1 < int (length (servers (LoadBalancer_plain 2)))
   \<and> (\<exists>c. selectNextServer Plain (servers (LoadBalancer_plain 2)) 0 [[1, 1]] [2] 1 2 (3/4) = Some c)"
proof -
  have h: "servers (LoadBalancer_plain 2) \<noteq> []" by (simp add: LoadBalancer_plain_def)
  have v: "selectNextServer Plain (servers (LoadBalancer_plain 2)) 0 [[1, 1]] [2] 1 2 (3/4) = Some 1"
    by (simp add: ACO_eval)
  note t = selectNextServer_roulette [OF h, of Plain 0 "[[1, 1]]" "[2]" 1 2 "3/4"]
  from t v have "(0::int) \<le> 1 \<and> 1 < int (length (servers (LoadBalancer_plain 2)))" by blast
  then show ?thesis using h v by blast
qed

subsection \<open>The ant-colony policy as a whole\<close>

lemma placeholder_draws:
  "ss \<noteq> [] \<Longrightarrow>
   foldM (\<lambda>taskLoad (ss, k). do {
                 randomServer \<leftarrow> getRandomServer rs k ss;
                 ss' \<leftarrow> addLoad_at p ss randomServer taskLoad;
                 Some (ss', Suc k) }) ts (ss, k)
   = foldM (draw_step p rs) ts (ss, k)"
proof (induction ts arbitrary: ss k)
  case Nil
  then show ?case by simp
next
  case (Cons t ts)
  show ?case
  proof (cases "addLoad_at p ss (ints rs k) t")
    case None
    then show ?thesis using Cons.prems by (simp add: getRandomServer_def draw_step_def)
  next
    case (Some ss1)
    then have "ss1 \<noteq> []" using Cons.prems length_addLoad_at [OF Some] by auto
    then show ?thesis using Cons.IH [of ss1 "Suc k"] Some Cons.prems
      by (simp add: getRandomServer_def draw_step_def)
  qed
qed

lemma ACO_placeholder_total_load:
  assumes "pool \<noteq> []" and "list_all (accepts p) taskLoads"
    and "\<forall>k. 0 \<le> ints rs k \<and> ints rs k < int (length pool)"
  shows "\<exists>ss'. ACO_placeholder p rs pool taskLoads = Some ss'
           \<and> sum_list (map (getLoad p) ss')
               = sum_list (map (getLoad p) pool) + sum_list (map (load_gain p) taskLoads)"
proof -
  obtain st where st: "foldM (draw_step p rs) taskLoads (pool, 0) = Some st"
    using draws_total [OF assms(3,2)] by blast
  show ?thesis using draws_gain [OF st] st
    by (simp add: ACO_placeholder_def placeholder_draws [OF assms(1)])
qed

lemma numIterations_positive: "0 < numIterations p"
  by (cases p) (simp_all add: numIterations_def)

lemma AntColonyOptimization_resets:
  assumes "pool \<noteq> []" and "loads_nonnegative p pool"
    and "list_all (\<lambda>w. 0 < w) taskLoads" and "list_all (accepts p) taskLoads"
    and "p \<noteq> Simulated"
  shows "\<exists>ss'. AntColonyOptimization_balanceLoad p rs pool taskLoads = Some ss'
           \<and> length ss' = length pool \<and> list_all (\<lambda>s. getLoad p s = 0) ss'"
proof -
  obtain st where st: "ACO_iterations p (numIterations p) rs pool taskLoads = Some st"
    and ok: "ACO_state_ok p (length taskLoads) (length pool) st"
    using ACO_iterations_total [OF assms(1-4)] by blast
  have "list_all (\<lambda>s. getLoad p s = 0) (fst st)"
    by (rule ACO_iterations_reset [OF st numIterations_positive])
  moreover have "AntColonyOptimization_balanceLoad p rs pool taskLoads = Some (fst st)"
    using st assms(5) by (cases p) (simp_all add: AntColonyOptimization_balanceLoad_def)
  ultimately show ?thesis using ok by (simp add: ACO_state_ok_def)
qed





subsection \<open>One server\<close>






subsection \<open>LoadBalancer\<close>

lemma totalCapability_sum:
  "foldl (\<lambda>total server. total + real_of_int (getCapability server)) 0 ss
     = real_of_int (sum_list (map getCapability ss))"
proof -
  have "foldl (\<lambda>total server. total + real_of_int (getCapability server)) a ss
          = a + real_of_int (sum_list (map getCapability ss))" for a
    by (induction ss arbitrary: a) auto
  then show ?thesis by simp
qed

lemma getThroughput_quotient:
  "getThroughput p lb simulatedTime =
     do { q \<leftarrow> double_div (getTotalLoad p lb) simulatedTime;
          double_div q (real_of_int (sum_list (map getCapability (servers lb)))) }"
  by (simp add: getThroughput_def totalCapability_sum)

lemma capabilities_LoadBalancer_cap:
  "map getCapability (servers (LoadBalancer_cap capabilities)) = capabilities"
  by (simp add: LoadBalancer_cap_def getCapability_def Server_cap_def o_def map_nth)

lemma fresh_getTotalLoad_cap: "getTotalLoad p (LoadBalancer_cap capabilities) = 0"
  by (simp add: getTotalLoad_sum fresh_total fresh_LoadBalancer_cap)

lemma fresh_getTotalLoad_plain: "getTotalLoad p (LoadBalancer_plain numServers) = 0"
  by (simp add: getTotalLoad_sum fresh_total fresh_LoadBalancer_plain)

lemma fresh_getThroughput:
  "getThroughput p (LoadBalancer_cap capabilities) t
     = (if t = 0 \<or> sum_list capabilities = 0 then None else Some 0)"
  by (simp add: getThroughput_quotient fresh_getTotalLoad_cap capabilities_LoadBalancer_cap double_div_def)

lemma balanceLoad_returns:
  assumes "pool \<noteq> []" and "ids_are_positions pool" and "list_all (accepts p) taskLoads"
    and "\<forall>k. 0 \<le> ints rs k \<and> ints rs k < int (length pool)"
    and "pol = AntColonyOptimization \<and> p \<noteq> Simulated
           \<longrightarrow> list_all (\<lambda>w. 0 < w) taskLoads \<and> loads_nonnegative p pool"
  shows "\<exists>ss'. balanceLoad p pol rs pool taskLoads = Some ss'"
proof (cases "pol = AntColonyOptimization")
  case False
  from policies_total_load [OF assms(1,2,3,4) False] show ?thesis by blast
next
  case True
  show ?thesis
  proof (cases "p = Simulated")
    case True
    from ACO_placeholder_total_load [OF assms(1,3,4)]
    show ?thesis using True \<open>pol = AntColonyOptimization\<close>
      by (auto simp: balanceLoad_def AntColonyOptimization_balanceLoad_def)
  next
    case False
    have "list_all (\<lambda>w. 0 < w) taskLoads" "loads_nonnegative p pool"
      using assms(5) True False by simp_all
    from AntColonyOptimization_resets [OF assms(1) this(2,1) assms(3) False, of rs]
    show ?thesis using True by (auto simp: balanceLoad_def)
  qed
qed

lemma run_Some: "run p pol rs lb taskLoads = Some (lb', alg) \<longleftrightarrow>
    lb' = lb \<and> balanceLoad p pol rs (servers lb) taskLoads = Some alg"
  by (auto simp: run_def split: option.splits)

lemma runs_unchanged: "runs p pol lb calls = Some lb' \<Longrightarrow> lb' = lb"
  unfolding runs_def
proof (rule foldM_preserves [where I = "\<lambda>x. x = lb"])
  fix x :: "random_source \<times> real list" and t t'
  assume "t = lb" "(case x of (rs, taskLoads) \<Rightarrow> \<lambda>lb'. map_option fst (run p pol rs lb' taskLoads)) t = Some t'"
  then show "t' = lb" by (cases x) (auto simp: run_Some)
qed simp_all

lemma runs_return:
  assumes "servers lb \<noteq> []" "ids_are_positions (servers lb)" "loads_nonnegative p (servers lb)"
    "list_all (run_defined p pol lb) calls"
  shows "runs p pol lb calls = Some lb"
proof -
  have "\<exists>lb'. runs p pol lb calls = Some lb' \<and> lb' = lb"
    unfolding runs_def
  proof (rule foldM_total [where I = "\<lambda>x. x = lb"])
    fix x :: "random_source \<times> real list" and t
    assume x: "x \<in> set calls" and t: "t = lb"
    obtain rs tl where c: "x = (rs, tl)" by (cases x)
    have d: "run_defined p pol lb (rs, tl)" using assms(4) x c by (simp add: list_all_iff)
    have "\<exists>alg. balanceLoad p pol rs (servers lb) tl = Some alg"
      using d assms(3) by (intro balanceLoad_returns assms(1,2)) (simp_all add: run_defined_def)
    then show "\<exists>t'. (case x of (rs, taskLoads) \<Rightarrow> \<lambda>lb'. map_option fst (run p pol rs lb' taskLoads)) t = Some t' \<and> t' = lb"
      using c t by (auto simp: run_def)
  qed simp
  then show ?thesis by simp
qed


text \<open>
  C2. Whenever \<open>run\<close> returns, the \<open>LoadBalancer\<close> is the one it was: the policy works on its
  own copy of the pool, and \<open>getTotalLoad\<close> and \<open>getThroughput\<close> answer after \<open>run\<close>, and after
  any number of calls of \<open>run\<close>, what they answered before. \<open>run\<close> returns on every non-empty
  pool built by the constructor, on the calls on which the policy is defined. On a freshly
  constructed \<open>LoadBalancer\<close>, \<open>getTotalLoad\<close> is 0 and \<open>getThroughput t\<close> is 0 wherever the
  throughput is defined, that is when neither \<open>t\<close> nor the sum of the capabilities is zero.
\<close>

theorem run_leaves_the_pool:
  "(\<forall>lb' alg. run p pol rs lb taskLoads = Some (lb', alg)
       \<longrightarrow> lb' = lb \<and> getTotalLoad p lb' = getTotalLoad p lb
           \<and> getThroughput p lb' t = getThroughput p lb t)
   \<and> (\<forall>lb'. runs p pol lb calls = Some lb' \<longrightarrow> lb' = lb)
   \<and> (servers lb \<noteq> [] \<and> ids_are_positions (servers lb) \<and> loads_nonnegative p (servers lb)
        \<and> run_defined p pol lb (rs, taskLoads)
       \<longrightarrow> (\<exists>alg. run p pol rs lb taskLoads = Some (lb, alg)))
   \<and> (servers lb \<noteq> [] \<and> ids_are_positions (servers lb) \<and> loads_nonnegative p (servers lb)
        \<and> list_all (run_defined p pol lb) calls
       \<longrightarrow> runs p pol lb calls = Some lb)
   \<and> getTotalLoad p (LoadBalancer_cap capabilities) = 0
   \<and> getTotalLoad p (LoadBalancer_plain numServers) = 0
   \<and> getThroughput p (LoadBalancer_cap capabilities) t
       = (if t = 0 \<or> sum_list capabilities = 0 then None else Some 0)
   \<and> (\<forall>lb'. runs p pol (LoadBalancer_cap capabilities) calls = Some lb'
         \<longrightarrow> getTotalLoad p lb' = 0
             \<and> getThroughput p lb' t = (if t = 0 \<or> sum_list capabilities = 0 then None else Some 0))
   \<and> (\<forall>lb'. runs p pol (LoadBalancer_plain numServers) calls = Some lb' \<longrightarrow> getTotalLoad p lb' = 0)"
proof (intro conjI allI impI)
  fix lb' alg assume r: "run p pol rs lb taskLoads = Some (lb', alg)"
  then have "lb' = lb" by (simp add: run_Some)
  then show "lb' = lb" "getTotalLoad p lb' = getTotalLoad p lb"
    "getThroughput p lb' t = getThroughput p lb t" by simp_all
next
  fix lb' assume "runs p pol lb calls = Some lb'"
  then show "lb' = lb" by (rule runs_unchanged)
next
  assume a: "servers lb \<noteq> [] \<and> ids_are_positions (servers lb) \<and> loads_nonnegative p (servers lb)
        \<and> run_defined p pol lb (rs, taskLoads)"
  then have "\<exists>alg. balanceLoad p pol rs (servers lb) taskLoads = Some alg"
    by (intro balanceLoad_returns) (simp_all add: run_defined_def)
  then show "\<exists>alg. run p pol rs lb taskLoads = Some (lb, alg)" by (simp add: run_Some)
next
  assume "servers lb \<noteq> [] \<and> ids_are_positions (servers lb) \<and> loads_nonnegative p (servers lb)
        \<and> list_all (run_defined p pol lb) calls"
  then show "runs p pol lb calls = Some lb" using runs_return by blast
next
  show "getTotalLoad p (LoadBalancer_cap capabilities) = 0" by (rule fresh_getTotalLoad_cap)
  show "getTotalLoad p (LoadBalancer_plain numServers) = 0" by (rule fresh_getTotalLoad_plain)
  show "getThroughput p (LoadBalancer_cap capabilities) t
       = (if t = 0 \<or> sum_list capabilities = 0 then None else Some 0)" by (rule fresh_getThroughput)
next
  fix lb' assume "runs p pol (LoadBalancer_cap capabilities) calls = Some lb'"
  then have "lb' = LoadBalancer_cap capabilities" by (rule runs_unchanged)
  then show "getTotalLoad p lb' = 0"
    "getThroughput p lb' t = (if t = 0 \<or> sum_list capabilities = 0 then None else Some 0)"
    by (simp_all add: fresh_getTotalLoad_cap fresh_getThroughput)
next
  fix lb' assume "runs p pol (LoadBalancer_plain numServers) calls = Some lb'"
  then have "lb' = LoadBalancer_plain numServers" by (rule runs_unchanged)
  then show "getTotalLoad p lb' = 0" by (simp add: fresh_getTotalLoad_plain)
qed

lemmas run_eval =
  run_def runs_def policies_eval getThroughput_def getCapability_def double_div_def

theorem run_leaves_the_pool_witness:
  "servers (LoadBalancer_cap [1, 1]) \<noteq> [] \<and> ids_are_positions (servers (LoadBalancer_cap [1, 1]))
   \<and> loads_nonnegative Simulated (servers (LoadBalancer_cap [1, 1]))
   \<and> run_defined Simulated RoundRobin (LoadBalancer_cap [1, 1]) (\<lparr>ints = \<lambda>k. 0, units = \<lambda>k. 0\<rparr>, [3, 3, 3, 3])
   \<and> (\<exists>alg. run Simulated RoundRobin \<lparr>ints = \<lambda>k. 0, units = \<lambda>k. 0\<rparr> (LoadBalancer_cap [1, 1]) [3, 3, 3, 3]
               = Some (LoadBalancer_cap [1, 1], alg))
   \<and> map_option (\<lambda>(lb', alg). (getTotalLoad Simulated lb', getTotalLoad Simulated \<lparr>servers = alg\<rparr>))
        (run Simulated RoundRobin \<lparr>ints = \<lambda>k. 0, units = \<lambda>k. 0\<rparr> (LoadBalancer_cap [1, 1]) [3, 3, 3, 3])
       = Some (0, 12)
   \<and> getThroughput Simulated (LoadBalancer_cap [1, 1]) 4 = Some 0"
proof -
  let ?rs = "\<lparr>ints = \<lambda>k. 0, units = \<lambda>k. 0\<rparr>"
  have h1: "servers (LoadBalancer_cap [1, 1]) \<noteq> []" by (simp add: LoadBalancer_cap_def)
  have h2: "ids_are_positions (servers (LoadBalancer_cap [1, 1]))" by (rule ids_LoadBalancer_cap)
  have h3: "loads_nonnegative Simulated (servers (LoadBalancer_cap [1, 1]))"
    by (simp add: loads_zero_nonnegative fresh_LoadBalancer_cap)
  have h4: "run_defined Simulated RoundRobin (LoadBalancer_cap [1, 1]) (?rs, [3, 3, 3, 3])"
    by (simp add: run_defined_def accepts_def LoadBalancer_cap_def)
  have v: "map_option (\<lambda>(lb', alg). (getTotalLoad Simulated lb', getTotalLoad Simulated \<lparr>servers = alg\<rparr>))
        (run Simulated RoundRobin ?rs (LoadBalancer_cap [1, 1]) [3, 3, 3, 3]) = Some (0, 12)"
    by (simp add: run_eval)
  note t = run_leaves_the_pool [of Simulated RoundRobin ?rs "LoadBalancer_cap [1, 1]" "[3, 3, 3, 3]" 4 "[]" "[1, 1]" 0]
  from t h1 h2 h3 h4
  have r: "\<exists>alg. run Simulated RoundRobin ?rs (LoadBalancer_cap [1, 1]) [3, 3, 3, 3]
               = Some (LoadBalancer_cap [1, 1], alg)" by blast
  from t have "getThroughput Simulated (LoadBalancer_cap [1, 1]) 4
       = (if (4::real) = 0 \<or> sum_list [1, 1 :: int] = 0 then None else Some 0)" by blast
  then have g: "getThroughput Simulated (LoadBalancer_cap [1, 1]) 4 = Some 0" by simp
  show ?thesis using h1 h2 h3 h4 r v g by blast
qed

subsection \<open>Throughput in binary64\<close>





















end
